theory Spec2Isabelle
  imports Main "HOL-Library.Word" "HOL-Library.Multiset"
begin

section \<open>Data model (include/types.h, src/data_structures.h)\<close>

text \<open>
  The enumerations of \<^verbatim>\<open>types.h\<close>. \<open>type_rank\<close> is \<^verbatim>\<open>static_cast<int>(type)\<close>:
  REGULAR = 0, FIRE_TRUCK = 1, AMBULANCE = 2.
\<close>

datatype VehicleType = REGULAR | FIRE_TRUCK | AMBULANCE

datatype NodeType = WAIT_NODE | TRAFFIC_CONTROLLER

datatype InputValidationResult =
    INPUT_VALID
  | INVALID_ADJACENCY_MATRIX
  | UNREACHABLE_DESTINATION
  | INVALID_CAPACITY
  | INVALID_TRAFFIC_CONTROLLER
  | DISCONNECTED_GRAPH

fun type_rank :: "VehicleType \<Rightarrow> int" where
  "type_rank REGULAR = 0"
| "type_rank FIRE_TRUCK = 1"
| "type_rank AMBULANCE = 2"

text \<open>
  A C++ \<^verbatim>\<open>int\<close> that the program does arithmetic on (capacity, occupancy, the
  counters) is a 32-bit word read as two's complement: \<open>+ 1\<close> and \<open>- 1\<close> wrap, \<open><s\<close> and
  \<open>\<le>s\<close> are the signed comparisons, \<open>sint\<close> is the value. Node indices, vehicle ids and
  time stamps are only stored and compared, never computed with, so they are plain
  integers. The steady-clock time points are tick counts.
\<close>

type_synonym int32 = "32 word"

record Vehicle =
  vehicle_id :: int
  vtype :: VehicleType
  source_node :: int
  destination_node :: int
  current_node :: int
  arrival_time :: int
  start_time :: int
  path :: "int list"
  blocked_attempts :: int32

text \<open>
  \<^verbatim>\<open>queue<Vehicle> waiting_queue\<close> is a list whose head is the front and to which
  \<^verbatim>\<open>push\<close> appends. \<^verbatim>\<open>priority_queue<Vehicle> emergency_queue\<close> is the vector the
  priority queue holds, in the order of its places; \<open>pq_push\<close>, \<open>pq_top\<close> and \<open>pq_pop\<close>
  below are its operations. \<^verbatim>\<open>adjacent_nodes\<close> holds node indices, which the loader
  pushes as \<open>j\<close> with \<open>0 \<le> j < n\<close>; they are naturals here.
\<close>

record NodeData =
  node_id :: int
  node_char :: char
  ntype :: NodeType
  capacity :: int32
  current_vehicles :: int32
  waiting_queue :: "Vehicle list"
  emergency_queue :: "Vehicle list"
  adjacent_nodes :: "nat list"

record SystemStats =
  total_vehicles_processed :: int32
  emergency_vehicles_processed :: int32
  successful_routes :: int32
  rerouting_attempts :: int32
  total_moves :: int32
  step_count :: int32

text \<open>
  The part of \<^verbatim>\<open>class TrafficNetwork\<close> the engine reads and writes: the nodes, the
  statistics and the id the next created vehicle gets (ids start at 1, so
  \<open>next_vehicle_id - 1\<close> vehicles have been created).
\<close>

record TrafficNetwork =
  nodes :: "NodeData list"
  stats :: SystemStats
  next_vehicle_id :: int32

subsection \<open>Vehicle ordering and the two queues (src/data_structures.cpp)\<close>

text \<open>\<^verbatim>\<open>Vehicle::operator<\<close>: lower class rank first, then the later arrival.\<close>

definition vehicle_less :: "Vehicle \<Rightarrow> Vehicle \<Rightarrow> bool" where
  "vehicle_less a b =
     (if vtype a \<noteq> vtype b then type_rank (vtype a) < type_rank (vtype b)
      else arrival_time a > arrival_time b)"

text \<open>
  \<^verbatim>\<open>std::priority_queue\<close> keeps its elements in a vector arranged as a binary heap
  under \<^verbatim>\<open>operator<\<close>: \<^verbatim>\<open>top()\<close> is the first element, \<^verbatim>\<open>push\<close> appends the element
  and calls \<^verbatim>\<open>std::push_heap\<close>, \<^verbatim>\<open>pop\<close> calls \<^verbatim>\<open>std::pop_heap\<close> and removes the last
  element. The C++ standard leaves the two heap algorithms to the library; they are
  modelled as the GNU C++ library has them (\<^verbatim>\<open>bits/stl_heap.h\<close>), which also fixes the
  order in which elements that are equal under \<^verbatim>\<open>operator<\<close> come out.

  \<^verbatim>\<open>__push_heap(first, holeIndex, topIndex, value)\<close>: the hole moves up while its parent
  is less than the value.
\<close>

function push_heap_hole :: "Vehicle list \<Rightarrow> nat \<Rightarrow> nat \<Rightarrow> Vehicle \<Rightarrow> Vehicle list" where
  "push_heap_hole c holeIndex topIndex v =
     (let parent = (holeIndex - 1) div 2 in
      if holeIndex > topIndex \<and> vehicle_less (c ! parent) v
      then push_heap_hole (c[holeIndex := c ! parent]) parent topIndex v
      else c[holeIndex := v])"
  by pat_completeness auto
termination
  by (relation "measure (\<lambda>(c, holeIndex, topIndex, v). holeIndex)") auto

text \<open>
  \<^verbatim>\<open>std::push_heap(first, last)\<close> takes the last element as the value and its place as
  the hole.
\<close>

definition push_heap :: "Vehicle list \<Rightarrow> Vehicle list" where
  "push_heap c = push_heap_hole c (length c - 1) 0 (last c)"

text \<open>
  The \<^verbatim>\<open>while\<close> loop of \<^verbatim>\<open>__adjust_heap(first, holeIndex, len, value)\<close>: the hole moves
  down to the greater child (the right one if the two are equal) as long as there are
  two children.
\<close>

function adjust_heap_down ::
  "Vehicle list \<Rightarrow> nat \<Rightarrow> nat \<Rightarrow> nat \<Rightarrow> Vehicle list \<times> nat \<times> nat" where
  "adjust_heap_down c holeIndex secondChild len =
     (if secondChild < (len - 1) div 2
      then
        let secondChild = 2 * (secondChild + 1);
            secondChild = (if vehicle_less (c ! secondChild) (c ! (secondChild - 1))
                           then secondChild - 1 else secondChild)
        in adjust_heap_down (c[holeIndex := c ! secondChild]) secondChild secondChild len
      else (c, holeIndex, secondChild))"
  by pat_completeness auto
termination
  by (relation "measure (\<lambda>(c, holeIndex, secondChild, len). len - secondChild)")
     (auto simp: Let_def)

text \<open>
  \<^verbatim>\<open>__adjust_heap\<close>: after the loop a hole with a single child (\<^verbatim>\<open>len\<close> is even and
  the hole is the parent of the last element) moves down once more, then the value is
  pushed up from the hole. \<^verbatim>\<open>len\<close> is positive where \<^verbatim>\<open>__pop_heap\<close> calls it; for
  \<^verbatim>\<open>len\<close> 0 the quotient \<^verbatim>\<open>(len - 2) / 2\<close> of the source is negative and equals no index,
  which the test \<open>0 < len\<close> stands for.
\<close>

definition adjust_heap :: "Vehicle list \<Rightarrow> nat \<Rightarrow> nat \<Rightarrow> Vehicle \<Rightarrow> Vehicle list" where
  "adjust_heap c holeIndex len v =
     (let topIndex = holeIndex in
      case adjust_heap_down c holeIndex holeIndex len of
        (c, holeIndex, secondChild) \<Rightarrow>
          if even len \<and> 0 < len \<and> secondChild = (len - 2) div 2
          then
            let secondChild = 2 * (secondChild + 1)
            in push_heap_hole (c[holeIndex := c ! (secondChild - 1)]) (secondChild - 1)
                 topIndex v
          else push_heap_hole c holeIndex topIndex v)"

text \<open>
  \<^verbatim>\<open>std::pop_heap(first, last)\<close>: on more than one element, the last element is the
  value, the first element goes to the last place, and \<^verbatim>\<open>__adjust_heap\<close> runs on the
  range without the last place, from the hole at index 0.
\<close>

definition pop_heap :: "Vehicle list \<Rightarrow> Vehicle list" where
  "pop_heap c =
     (if length c > 1
      then adjust_heap (butlast c) 0 (length c - 1) (last c) @ [hd c]
      else c)"

text \<open>The three operations of \<^verbatim>\<open>std::priority_queue\<close> that the engine calls.\<close>

definition pq_top :: "Vehicle list \<Rightarrow> Vehicle" where
  "pq_top q = hd q"

definition pq_pop :: "Vehicle list \<Rightarrow> Vehicle list" where
  "pq_pop q = butlast (pop_heap q)"

definition pq_push :: "Vehicle \<Rightarrow> Vehicle list \<Rightarrow> Vehicle list" where
  "pq_push v q = push_heap (q @ [v])"

definition has_emergency_vehicles :: "NodeData \<Rightarrow> bool" where
  "has_emergency_vehicles nd = (emergency_queue nd \<noteq> [])"

definition get_queue_size :: "NodeData \<Rightarrow> nat" where
  "get_queue_size nd = length (waiting_queue nd) + length (emergency_queue nd)"

text \<open>
  The constructors \<^verbatim>\<open>Vehicle::Vehicle(id, t, src, dest)\<close> and
  \<^verbatim>\<open>NodeData::NodeData(id, c, t, cap)\<close>; \<open>now\<close> is the clock reading at construction.
\<close>

definition Vehicle_init :: "int \<Rightarrow> VehicleType \<Rightarrow> int \<Rightarrow> int \<Rightarrow> int \<Rightarrow> Vehicle" where
  "Vehicle_init ident t src dest now =
     \<lparr>vehicle_id = ident, vtype = t, source_node = src, destination_node = dest,
      current_node = src, arrival_time = now, start_time = now, path = [],
      blocked_attempts = 0\<rparr>"

definition NodeData_init :: "int \<Rightarrow> char \<Rightarrow> NodeType \<Rightarrow> int32 \<Rightarrow> NodeData" where
  "NodeData_init ident c t cap =
     \<lparr>node_id = ident, node_char = c, ntype = t, capacity = cap, current_vehicles = 0,
      waiting_queue = [], emergency_queue = [], adjacent_nodes = []\<rparr>"

definition SystemStats_init :: SystemStats where
  "SystemStats_init =
     \<lparr>total_vehicles_processed = 0, emergency_vehicles_processed = 0, successful_routes = 0,
      rerouting_attempts = 0, total_moves = 0, step_count = 0\<rparr>"

section \<open>Admission control (src/traffic_network.cpp, can_move_to_node_safe)\<close>

definition can_move_to_node_safe :: "NodeData list \<Rightarrow> int \<Rightarrow> VehicleType \<Rightarrow> bool" where
  "can_move_to_node_safe ns node_idx vehicle_type =
     (if node_idx < 0 \<or> node_idx \<ge> int (length ns) then False
      else
        let max_allowed = capacity (ns ! nat node_idx);
            max_allowed = (if vehicle_type \<noteq> REGULAR then max_allowed + 1 else max_allowed)
        in current_vehicles (ns ! nat node_idx) <s max_allowed)"

section \<open>Router (src/traffic_network.cpp, find_best_next_hop)\<close>

text \<open>
  The inner \<^verbatim>\<open>for (int neighbor : nodes[cur].adjacent_nodes)\<close> of the breadth-first
  search, on the state (parent, visited, q). The loader only stores indices below the
  node count in an adjacency list; reading \<^verbatim>\<open>visited[neighbor]\<close> for any other
  index is undefined in the source, and the model passes over such an entry.
\<close>

fun bfs_neighbors ::
  "nat \<Rightarrow> nat list \<Rightarrow> int list \<times> bool list \<times> nat list \<Rightarrow> int list \<times> bool list \<times> nat list" where
  "bfs_neighbors cur [] st = st"
| "bfs_neighbors cur (neighbor # rest) (parent, visited, q) =
     (if neighbor < length visited \<and> \<not> visited ! neighbor
      then bfs_neighbors cur rest
             (parent[neighbor := int cur], visited[neighbor := True], q @ [neighbor])
      else bfs_neighbors cur rest (parent, visited, q))"

text \<open>
  The walk back along the parent pointers,
  \<^verbatim>\<open>while (parent[next] != from_node && parent[next] != -1) next = parent[next];\<close>.
  On an arbitrary parent array the loop need not end; \<open>None\<close> is "does not return".
\<close>

partial_function (option) first_hop_walk :: "int list \<Rightarrow> int \<Rightarrow> nat \<Rightarrow> nat option" where
  "first_hop_walk parent from_node next =
     (if parent ! next \<noteq> from_node \<and> parent ! next \<noteq> - 1
      then first_hop_walk parent from_node (nat (parent ! next))
      else Some next)"

definition unvisited :: "bool list \<Rightarrow> nat" where
  "unvisited visited = card {i. i < length visited \<and> \<not> visited ! i}"

lemma unvisited_update:
  assumes "i < length visited" and "\<not> visited ! i"
  shows "Suc (unvisited (visited[i := True])) = unvisited visited"
proof -
  let ?U = "{j. j < length visited \<and> \<not> visited ! j}"
  have fin: "finite ?U" by simp
  have mem: "i \<in> ?U" using assms by simp
  have "{j. j < length (visited[i := True]) \<and> \<not> visited[i := True] ! j} = ?U - {i}"
    using assms by (auto simp: nth_list_update)
  then have "unvisited (visited[i := True]) = card (?U - {i})"
    by (simp add: unvisited_def)
  also have "\<dots> = card ?U - 1"
    using fin mem by (simp add: card_Diff_singleton)
  finally show ?thesis
    using fin mem card_gt_0_iff [of ?U] by (auto simp: unvisited_def)
qed

lemma bfs_neighbors_measure:
  "bfs_neighbors cur nbs (parent, visited, q) = (parent', visited', q') \<Longrightarrow>
     unvisited visited' + length q' = unvisited visited + length q"
proof (induction nbs arbitrary: parent visited q)
  case Nil
  then show ?case by simp
next
  case (Cons nb nbs)
  show ?case
  proof (cases "nb < length visited \<and> \<not> visited ! nb")
    case True
    then have "bfs_neighbors cur nbs
        (parent[nb := int cur], visited[nb := True], q @ [nb]) = (parent', visited', q')"
      using Cons.prems by simp
    from Cons.IH [OF this] unvisited_update [of nb visited] True
    show ?thesis by simp
  next
    case False
    then have "bfs_neighbors cur nbs (parent, visited, q) = (parent', visited', q')"
      using Cons.prems by auto
    from Cons.IH [OF this] show ?thesis .
  qed
qed

text \<open>
  The \<^verbatim>\<open>while (!q.empty())\<close> loop. Its exit is the statement after the loop,
  \<^verbatim>\<open>return adjacent[0]\<close>; dequeuing the destination returns the end of the walk.
\<close>

function bfs_loop ::
  "NodeData list \<Rightarrow> nat \<Rightarrow> int \<Rightarrow> int list \<Rightarrow> bool list \<Rightarrow> nat list \<Rightarrow> int option" where
  "bfs_loop ns from_node destination parent visited [] =
     Some (int (hd (adjacent_nodes (ns ! from_node))))"
| "bfs_loop ns from_node destination parent visited (cur # q) =
     (if int cur = destination
      then map_option int (first_hop_walk parent (int from_node) (nat destination))
      else case bfs_neighbors cur (adjacent_nodes (ns ! cur)) (parent, visited, q) of
             (parent', visited', q') \<Rightarrow> bfs_loop ns from_node destination parent' visited' q')"
  by pat_completeness auto
termination
  apply (relation "measure (\<lambda>(ns, from_node, destination, parent, visited, q).
                   unvisited visited + length q)")
   apply simp
  apply (auto split: prod.splits dest: bfs_neighbors_measure)
  done

text \<open>
  \<^verbatim>\<open>find_best_next_hop\<close> up to its result; \<open>None\<close> would be a parent walk that never
  ends. \<open>find_best_next_hop_run_returns\<close> below shows that this never happens, so
  \<open>find_best_next_hop\<close> is the value returned.
\<close>

definition find_best_next_hop_run :: "NodeData list \<Rightarrow> nat \<Rightarrow> int \<Rightarrow> int option" where
  "find_best_next_hop_run ns from_node destination =
     (if from_node \<ge> length ns then Some (- 1)
      else
        let adjacent = adjacent_nodes (ns ! from_node) in
        if adjacent = [] then Some (- 1)
        else if list_ex (\<lambda>adj. int adj = destination) adjacent then Some destination
        else bfs_loop ns from_node destination
               (replicate (length ns) (- 1))
               ((replicate (length ns) False)[from_node := True])
               [from_node])"

definition find_best_next_hop :: "NodeData list \<Rightarrow> nat \<Rightarrow> int \<Rightarrow> int" where
  "find_best_next_hop ns from_node destination =
     the (find_best_next_hop_run ns from_node destination)"

section \<open>Engine (src/traffic_network.cpp)\<close>

text \<open>
  The engine's methods pass the network as explicit state. A method that takes
  \<^verbatim>\<open>Vehicle&\<close> also returns the vehicle, so that what it writes to the caller's copy
  after a copy was pushed into a queue is visible. Console output and sleeps are left out.
\<close>

definition upd_node :: "nat \<Rightarrow> (NodeData \<Rightarrow> NodeData) \<Rightarrow> TrafficNetwork \<Rightarrow> TrafficNetwork" where
  "upd_node i f net = net\<lparr>nodes := (nodes net)[i := f (nodes net ! i)]\<rparr>"

definition upd_stats :: "(SystemStats \<Rightarrow> SystemStats) \<Rightarrow> TrafficNetwork \<Rightarrow> TrafficNetwork" where
  "upd_stats f net = net\<lparr>stats := f (stats net)\<rparr>"

definition return_vehicle_to_queue ::
  "Vehicle \<Rightarrow> nat \<Rightarrow> bool \<Rightarrow> TrafficNetwork \<Rightarrow> TrafficNetwork" where
  "return_vehicle_to_queue vehicle node_idx is_emergency net =
     (if is_emergency
      then upd_node node_idx
             (\<lambda>nd. nd\<lparr>emergency_queue := pq_push vehicle (emergency_queue nd)\<rparr>) net
      else upd_node node_idx
             (\<lambda>nd. nd\<lparr>waiting_queue := waiting_queue nd @ [vehicle]\<rparr>) net)"

definition record_arrival :: "Vehicle \<Rightarrow> SystemStats \<Rightarrow> SystemStats" where
  "record_arrival vehicle st =
     (let st1 = (if vtype vehicle = REGULAR
                 then st\<lparr>total_vehicles_processed := total_vehicles_processed st + 1\<rparr>
                 else st\<lparr>emergency_vehicles_processed := emergency_vehicles_processed st + 1\<rparr>)
      in st1\<lparr>successful_routes := successful_routes st1 + 1\<rparr>)"

definition enqueue_by_type :: "Vehicle \<Rightarrow> NodeData \<Rightarrow> NodeData" where
  "enqueue_by_type vehicle nd =
     (if vtype vehicle = REGULAR
      then nd\<lparr>waiting_queue := waiting_queue nd @ [vehicle]\<rparr>
      else nd\<lparr>emergency_queue := pq_push vehicle (emergency_queue nd)\<rparr>)"

definition leave_source :: "nat \<Rightarrow> TrafficNetwork \<Rightarrow> TrafficNetwork" where
  "leave_source from_node net =
     (if 0 <s current_vehicles (nodes net ! from_node)
      then upd_node from_node (\<lambda>nd. nd\<lparr>current_vehicles := current_vehicles nd - 1\<rparr>) net
      else net)"

subsection \<open>Step-by-step mode\<close>

definition perform_vehicle_move_with_display ::
  "Vehicle \<Rightarrow> nat \<Rightarrow> int \<Rightarrow> TrafficNetwork \<Rightarrow> Vehicle \<times> TrafficNetwork" where
  "perform_vehicle_move_with_display vehicle from_node to_node net =
     (let net1 = leave_source from_node net;
          vehicle1 = vehicle\<lparr>current_node := to_node\<rparr>;
          net2 = upd_stats (\<lambda>st. st\<lparr>total_moves := total_moves st + 1\<rparr>) net1
      in if to_node = destination_node vehicle1
         then (vehicle1, upd_stats (record_arrival vehicle1) net2)
         else
           let net3 = upd_node (nat to_node)
                        (\<lambda>nd. nd\<lparr>current_vehicles := current_vehicles nd + 1\<rparr>) net2
           in (vehicle1, upd_node (nat to_node) (enqueue_by_type vehicle1) net3))"

definition process_vehicle_step_by_step ::
  "Vehicle \<Rightarrow> nat \<Rightarrow> bool \<Rightarrow> TrafficNetwork \<Rightarrow> bool \<times> Vehicle \<times> TrafficNetwork" where
  "process_vehicle_step_by_step vehicle from_node is_emergency net =
     (let next_node = find_best_next_hop (nodes net) from_node (destination_node vehicle)
      in if next_node = - 1
         then (False, vehicle, return_vehicle_to_queue vehicle from_node is_emergency net)
         else if can_move_to_node_safe (nodes net) next_node (vtype vehicle)
         then (case perform_vehicle_move_with_display vehicle from_node next_node net of
                 (vehicle', net') \<Rightarrow> (True, vehicle', net'))
         else
           let net1 = return_vehicle_to_queue vehicle from_node is_emergency net
           in (False, vehicle\<lparr>blocked_attempts := blocked_attempts vehicle + 1\<rparr>, net1))"

text \<open>
  The vehicle is a local copy of the queue's element; what the callee writes to it is
  dropped when \<^verbatim>\<open>process_single_vehicle_movement\<close> returns.
\<close>

definition process_single_vehicle_movement ::
  "nat \<Rightarrow> TrafficNetwork \<Rightarrow> bool \<times> TrafficNetwork" where
  "process_single_vehicle_movement node_idx net =
     (if node_idx \<ge> length (nodes net) then (False, net)
      else
        let node = nodes net ! node_idx in
        if has_emergency_vehicles node then
          let vehicle = pq_top (emergency_queue node);
              net1 = upd_node node_idx
                       (\<lambda>nd. nd\<lparr>emergency_queue := pq_pop (emergency_queue nd)\<rparr>) net
          in (case process_vehicle_step_by_step vehicle node_idx True net1 of
                (moved, vehicle', net') \<Rightarrow> (moved, net'))
        else if waiting_queue node \<noteq> [] then
          let vehicle = hd (waiting_queue node);
              net1 = upd_node node_idx (\<lambda>nd. nd\<lparr>waiting_queue := tl (waiting_queue nd)\<rparr>) net
          in (case process_vehicle_step_by_step vehicle node_idx False net1 of
                (moved, vehicle', net') \<Rightarrow> (moved, net'))
        else (False, net))"

subsection \<open>Automatic mode\<close>

definition attempt_rerouting :: "Vehicle \<Rightarrow> TrafficNetwork \<Rightarrow> Vehicle \<times> TrafficNetwork" where
  "attempt_rerouting vehicle net =
     (vehicle\<lparr>blocked_attempts := 0\<rparr>,
      upd_stats (\<lambda>st. st\<lparr>rerouting_attempts := rerouting_attempts st + 1\<rparr>) net)"

definition perform_vehicle_move ::
  "Vehicle \<Rightarrow> nat \<Rightarrow> int \<Rightarrow> TrafficNetwork \<Rightarrow> Vehicle \<times> TrafficNetwork" where
  "perform_vehicle_move vehicle from_node to_node net =
     (let net1 = leave_source from_node net;
          vehicle1 = vehicle\<lparr>current_node := to_node\<rparr>;
          net2 = upd_stats (\<lambda>st. st\<lparr>total_moves := total_moves st + 1\<rparr>) net1
      in if to_node = destination_node vehicle1
         then (vehicle1, upd_stats (record_arrival vehicle1) net2)
         else
           let max_capacity = capacity (nodes net2 ! nat to_node);
               max_capacity = (if vtype vehicle1 \<noteq> REGULAR then max_capacity + 1
                               else max_capacity)
           in if current_vehicles (nodes net2 ! nat to_node) <s max_capacity
              then
                let net3 = upd_node (nat to_node)
                             (\<lambda>nd. nd\<lparr>current_vehicles := current_vehicles nd + 1\<rparr>) net2
                in (vehicle1, upd_node (nat to_node) (enqueue_by_type vehicle1) net3)
              else
                let net3 = upd_node from_node
                             (\<lambda>nd. nd\<lparr>current_vehicles := current_vehicles nd + 1\<rparr>) net2;
                    net4 = return_vehicle_to_queue vehicle1 from_node
                             (vtype vehicle1 \<noteq> REGULAR) net3
                in (vehicle1\<lparr>blocked_attempts := blocked_attempts vehicle1 + 1\<rparr>, net4))"

definition process_vehicle ::
  "Vehicle \<Rightarrow> nat \<Rightarrow> bool \<Rightarrow> TrafficNetwork \<Rightarrow> Vehicle \<times> TrafficNetwork" where
  "process_vehicle vehicle from_node is_emergency net =
     (let next_node = find_best_next_hop (nodes net) from_node (destination_node vehicle)
      in if next_node = - 1
         then (vehicle, return_vehicle_to_queue vehicle from_node is_emergency net)
         else if can_move_to_node_safe (nodes net) next_node (vtype vehicle)
         then perform_vehicle_move vehicle from_node next_node net
         else
           let net1 = return_vehicle_to_queue vehicle from_node is_emergency net;
               vehicle1 = vehicle\<lparr>blocked_attempts := blocked_attempts vehicle + 1\<rparr>
           in if 5 <s blocked_attempts vehicle1
              then attempt_rerouting vehicle1 net1
              else (vehicle1, net1))"

definition process_node_vehicles :: "nat \<Rightarrow> TrafficNetwork \<Rightarrow> TrafficNetwork" where
  "process_node_vehicles node_idx net =
     (if node_idx \<ge> length (nodes net) then net
      else
        let node = nodes net ! node_idx in
        if has_emergency_vehicles node then
          let vehicle = pq_top (emergency_queue node);
              net1 = upd_node node_idx
                       (\<lambda>nd. nd\<lparr>emergency_queue := pq_pop (emergency_queue nd)\<rparr>) net
          in snd (process_vehicle vehicle node_idx True net1)
        else if waiting_queue node \<noteq> [] then
          let vehicle = hd (waiting_queue node);
              net1 = upd_node node_idx (\<lambda>nd. nd\<lparr>waiting_queue := tl (waiting_queue nd)\<rparr>) net
          in snd (process_vehicle vehicle node_idx False net1)
        else net)"

subsection \<open>Projections of the state updates\<close>

lemma nodes_upd_node [simp]:
  "nodes (upd_node i f net) = (nodes net)[i := f (nodes net ! i)]"
  by (simp add: upd_node_def)

lemma stats_upd_node [simp]: "stats (upd_node i f net) = stats net"
  by (simp add: upd_node_def)

lemma next_vehicle_id_upd_node [simp]:
  "next_vehicle_id (upd_node i f net) = next_vehicle_id net"
  by (simp add: upd_node_def)

lemma nodes_upd_stats [simp]: "nodes (upd_stats f net) = nodes net"
  by (simp add: upd_stats_def)

lemma stats_upd_stats [simp]: "stats (upd_stats f net) = f (stats net)"
  by (simp add: upd_stats_def)

lemma next_vehicle_id_upd_stats [simp]:
  "next_vehicle_id (upd_stats f net) = next_vehicle_id net"
  by (simp add: upd_stats_def)

lemma length_nodes_return [simp]:
  "length (nodes (return_vehicle_to_queue v i e net)) = length (nodes net)"
  by (simp add: return_vehicle_to_queue_def)

lemma length_nodes_leave [simp]:
  "length (nodes (leave_source i net)) = length (nodes net)"
  by (simp add: leave_source_def)

lemma length_nodes_move_display [simp]:
  "length (nodes (snd (perform_vehicle_move_with_display v i t net))) = length (nodes net)"
  by (simp add: perform_vehicle_move_with_display_def Let_def)

lemma length_nodes_move [simp]:
  "length (nodes (snd (perform_vehicle_move v i t net))) = length (nodes net)"
  by (simp add: perform_vehicle_move_def Let_def)

lemma length_nodes_step_vehicle [simp]:
  "length (nodes (snd (snd (process_vehicle_step_by_step v i e net)))) = length (nodes net)"
proof -
  let ?h = "find_best_next_hop (nodes net) i (destination_node v)"
  obtain v' net' where mv: "perform_vehicle_move_with_display v i ?h net = (v', net')"
    by (cases "perform_vehicle_move_with_display v i ?h net")
  have "length (nodes (snd (perform_vehicle_move_with_display v i ?h net)))
      = length (nodes net)"
    by (rule length_nodes_move_display)
  then have len: "length (nodes net') = length (nodes net)"
    using mv by simp
  show ?thesis
  proof (cases "?h = - 1")
    case True
    then show ?thesis by (simp add: process_vehicle_step_by_step_def)
  next
    case False
    show ?thesis
    proof (cases "can_move_to_node_safe (nodes net) ?h (vtype v)")
      case True
      with False mv len show ?thesis by (simp add: process_vehicle_step_by_step_def)
    next
      case c: False
      with False show ?thesis by (simp add: process_vehicle_step_by_step_def)
    qed
  qed
qed

lemma length_nodes_single [simp]:
  "length (nodes (snd (process_single_vehicle_movement i net))) = length (nodes net)"
proof (cases "i \<ge> length (nodes net)")
  case True
  then show ?thesis by (simp add: process_single_vehicle_movement_def)
next
  case False
  have a: "length (nodes (snd (snd (process_vehicle_step_by_step v i e
      (upd_node i f net))))) = length (nodes net)" for v e f
    by (simp del: nodes_upd_node add: length_nodes_step_vehicle [of v i e "upd_node i f net"])
       simp
  have b: "length (nodes (snd (case p of (moved, vehicle', net') \<Rightarrow> (moved, net'))))
      = length (nodes (snd (snd p)))" for p :: "bool \<times> Vehicle \<times> TrafficNetwork"
    by (cases p) simp
  show ?thesis
  proof (cases "has_emergency_vehicles (nodes net ! i)")
    case True
    with False show ?thesis
      unfolding process_single_vehicle_movement_def Let_def by (simp only: if_False if_True not_False_eq_True not_True_eq_False b a)
  next
    case e: False
    show ?thesis
    proof (cases "waiting_queue (nodes net ! i) \<noteq> []")
      case True
      with False e show ?thesis
        unfolding process_single_vehicle_movement_def Let_def by (simp only: if_False if_True not_False_eq_True not_True_eq_False b a)
    next
      case w: False
      with False e show ?thesis
        unfolding process_single_vehicle_movement_def Let_def by simp
    qed
  qed
qed

lemma length_nodes_process_vehicle [simp]:
  "length (nodes (snd (process_vehicle v i e net))) = length (nodes net)"
  by (simp add: process_vehicle_def attempt_rerouting_def Let_def)

lemma length_nodes_process_node [simp]:
  "length (nodes (process_node_vehicles i net)) = length (nodes net)"
  by (simp add: process_node_vehicles_def Let_def)

subsection \<open>The scans over the nodes\<close>

text \<open>
  \<^verbatim>\<open>execute_single_step\<close>:
  \<^verbatim>\<open>for (size_t i = 0; i < nodes.size() && !movement_occurred; ++i)\<close>.
\<close>

function step_loop :: "nat \<Rightarrow> bool \<Rightarrow> TrafficNetwork \<Rightarrow> bool \<times> TrafficNetwork" where
  "step_loop i movement_occurred net =
     (if i < length (nodes net) \<and> \<not> movement_occurred
      then if get_queue_size (nodes net ! i) > 0
           then (case process_single_vehicle_movement i net of
                   (moved, net') \<Rightarrow> step_loop (i + 1) moved net')
           else step_loop (i + 1) movement_occurred net
      else (movement_occurred, net))"
  by pat_completeness auto
termination
proof (relation "measure (\<lambda>(i, movement_occurred, net). length (nodes net) - i)", goal_cases)
  case 1
  show ?case by simp
next
  case (2 i movement_occurred net x y)
  have "length (nodes (snd (process_single_vehicle_movement i net))) = length (nodes net)"
    by (rule length_nodes_single)
  moreover have "snd (process_single_vehicle_movement i net) = y"
    using 2(3) by (metis snd_conv)
  ultimately show ?case using 2(1) by auto
next
  case (3 i movement_occurred net)
  then show ?case by auto
qed

definition execute_single_step :: "TrafficNetwork \<Rightarrow> bool \<times> TrafficNetwork" where
  "execute_single_step net = step_loop 0 False net"

text \<open>
  One sweep of \<^verbatim>\<open>token_allocation_loop\<close> under the coordinator lock:
  \<^verbatim>\<open>for (size_t i = 0; i < nodes.size(); ++i) if (nodes[i].get_queue_size() > 0) process_node_vehicles(i);\<close>
\<close>

function sweep_loop :: "nat \<Rightarrow> TrafficNetwork \<Rightarrow> TrafficNetwork" where
  "sweep_loop i net =
     (if i < length (nodes net)
      then if get_queue_size (nodes net ! i) > 0
           then sweep_loop (i + 1) (process_node_vehicles i net)
           else sweep_loop (i + 1) net
      else net)"
  by pat_completeness auto
termination
  by (relation "measure (\<lambda>(i, net). length (nodes net) - i)") auto

section \<open>Validator (src/traffic_validator.cpp)\<close>

text \<open>
  The adjacency matrix is \<^verbatim>\<open>vector<vector<int>>\<close>; its entries are only compared
  with 0. The loader builds it square (n rows of n entries).
\<close>

definition square :: "int list list \<Rightarrow> bool" where
  "square adj = list_all (\<lambda>row. length row = length adj) adj"

text \<open>
  \<^verbatim>\<open>is_graph_connected\<close>: the inner \<^verbatim>\<open>for (int i = 0; i < n; ++i)\<close> on the state
  (visited, st, cnt); the stack's top is the head of \<open>st\<close>.
\<close>

fun dfs_row ::
  "int list list \<Rightarrow> nat \<Rightarrow> nat list \<Rightarrow> bool list \<times> nat list \<times> nat \<Rightarrow> bool list \<times> nat list \<times> nat" where
  "dfs_row adj cur [] state = state"
| "dfs_row adj cur (i # rest) (visited, st, cnt) =
     (if adj ! cur ! i > 0 \<and> \<not> visited ! i
      then dfs_row adj cur rest (visited[i := True], i # st, cnt + 1)
      else dfs_row adj cur rest (visited, st, cnt))"

lemma dfs_row_measure:
  "dfs_row adj cur is (visited, st, cnt) = (visited', st', cnt') \<Longrightarrow>
     \<forall>i \<in> set is. i < length visited \<Longrightarrow>
     unvisited visited' + length st' = unvisited visited + length st
     \<and> length visited' = length visited"
proof (induction "is" arbitrary: visited st cnt)
  case Nil
  then show ?case by simp
next
  case (Cons i rest)
  have il: "i < length visited" using Cons.prems(2) by simp
  show ?case
  proof (cases "adj ! cur ! i > 0 \<and> \<not> visited ! i")
    case True
    then have run: "dfs_row adj cur rest (visited[i := True], i # st, cnt + 1)
        = (visited', st', cnt')"
      using Cons.prems(1) by simp
    have "\<forall>j \<in> set rest. j < length (visited[i := True])"
      using Cons.prems(2) by simp
    from Cons.IH [OF run this] unvisited_update [of i visited] il True
    show ?thesis by simp
  next
    case False
    then have run: "dfs_row adj cur rest (visited, st, cnt) = (visited', st', cnt')"
      using Cons.prems(1) by auto
    have "\<forall>j \<in> set rest. j < length visited"
      using Cons.prems(2) by simp
    from Cons.IH [OF run this] show ?thesis .
  qed
qed

lemma dfs_row_measure_upt:
  "dfs_row adj cur [0..<length visited] (visited, st, cnt) = (visited', st', cnt') \<Longrightarrow>
     unvisited visited' + length st' = unvisited visited + length st"
  using dfs_row_measure [of adj cur "[0..<length visited]" visited st cnt visited' st' cnt']
  by simp

text \<open>
  The \<^verbatim>\<open>while (!st.empty())\<close> loop; it returns the final value of the counter (\<^verbatim>\<open>count\<close>). \<open>n\<close> of the source
  is the size of \<open>visited\<close>.
\<close>

function dfs_loop :: "int list list \<Rightarrow> bool list \<Rightarrow> nat list \<Rightarrow> nat \<Rightarrow> nat" where
  "dfs_loop adj visited [] cnt = cnt"
| "dfs_loop adj visited (cur # st) cnt =
     (case dfs_row adj cur [0..<length visited] (visited, st, cnt) of
        (visited', st', cnt') \<Rightarrow> dfs_loop adj visited' st' cnt')"
  by pat_completeness auto
termination
  apply (relation "measure (\<lambda>(adj, visited, st, cnt). unvisited visited + length st)")
   apply simp
  apply (auto split: prod.splits dest: dfs_row_measure_upt)
  done

definition is_graph_connected :: "int list list \<Rightarrow> bool" where
  "is_graph_connected adj_matrix =
     (let n = length adj_matrix in
      if n = 0 then False
      else dfs_loop adj_matrix ((replicate n False)[0 := True]) [0] 1 = n)"

text \<open>
  \<^verbatim>\<open>is_path_exists\<close>: the inner loop either returns true from the function
  (\<open>Return_True\<close>) or runs to its end with the new (visited, q).
\<close>

datatype 'a scan = Return_True | Continue 'a

fun bfs_row ::
  "int list list \<Rightarrow> nat \<Rightarrow> nat \<Rightarrow> nat list \<Rightarrow> bool list \<times> nat list \<Rightarrow> (bool list \<times> nat list) scan" where
  "bfs_row adj cur dest [] state = Continue state"
| "bfs_row adj cur dest (i # rest) (visited, q) =
     (if adj ! cur ! i > 0 \<and> \<not> visited ! i
      then if i = dest then Return_True
           else bfs_row adj cur dest rest (visited[i := True], q @ [i])
      else bfs_row adj cur dest rest (visited, q))"

lemma bfs_row_measure:
  "bfs_row adj cur dest is (visited, q) = Continue (visited', q') \<Longrightarrow>
     \<forall>i \<in> set is. i < length visited \<Longrightarrow>
     unvisited visited' + length q' = unvisited visited + length q
     \<and> length visited' = length visited"
proof (induction "is" arbitrary: visited q)
  case Nil
  then show ?case by simp
next
  case (Cons i rest)
  have il: "i < length visited" using Cons.prems(2) by simp
  show ?case
  proof (cases "adj ! cur ! i > 0 \<and> \<not> visited ! i")
    case True
    then have run: "bfs_row adj cur dest rest (visited[i := True], q @ [i])
        = Continue (visited', q')"
      using Cons.prems(1) by (simp split: if_splits)
    have "\<forall>j \<in> set rest. j < length (visited[i := True])"
      using Cons.prems(2) by simp
    from Cons.IH [OF run this] unvisited_update [of i visited] il True
    show ?thesis by simp
  next
    case False
    then have run: "bfs_row adj cur dest rest (visited, q) = Continue (visited', q')"
      using Cons.prems(1) by auto
    have "\<forall>j \<in> set rest. j < length visited"
      using Cons.prems(2) by simp
    from Cons.IH [OF run this] show ?thesis .
  qed
qed

lemma bfs_row_measure_upt:
  "bfs_row adj cur dest [0..<length visited] (visited, q) = Continue (visited', q') \<Longrightarrow>
     unvisited visited' + length q' = unvisited visited + length q"
  using bfs_row_measure [of adj cur dest "[0..<length visited]" visited q visited' q']
  by simp

function path_loop :: "int list list \<Rightarrow> nat \<Rightarrow> bool list \<Rightarrow> nat list \<Rightarrow> bool" where
  "path_loop adj dest visited [] = False"
| "path_loop adj dest visited (cur # q) =
     (case bfs_row adj cur dest [0..<length visited] (visited, q) of
        Return_True \<Rightarrow> True
      | Continue (visited', q') \<Rightarrow> path_loop adj dest visited' q')"
  by pat_completeness auto
termination
  apply (relation "measure (\<lambda>(adj, dest, visited, q). unvisited visited + length q)")
   apply simp
  apply (auto split: prod.splits scan.splits dest: bfs_row_measure_upt)
  done

definition is_path_exists :: "int list list \<Rightarrow> int \<Rightarrow> int \<Rightarrow> bool" where
  "is_path_exists adj_matrix src dest =
     (let n = length adj_matrix in
      if src < 0 \<or> src \<ge> int n \<or> dest < 0 \<or> dest \<ge> int n then False
      else if src = dest then True
      else path_loop adj_matrix (nat dest) ((replicate n False)[nat src := True]) [nat src])"

text \<open>
  The destinations map is the list of its (source, destination) pairs in the order the
  \<^verbatim>\<open>for (const auto& pair : destinations)\<close> visits them.
\<close>

fun are_destinations_reachable :: "int list list \<Rightarrow> (int \<times> int) list \<Rightarrow> bool" where
  "are_destinations_reachable adj [] = True"
| "are_destinations_reachable adj (pair # rest) =
     (if \<not> is_path_exists adj (fst pair) (snd pair) then False
      else are_destinations_reachable adj rest)"

fun check_capacities :: "NodeData list \<Rightarrow> InputValidationResult" where
  "check_capacities [] = INPUT_VALID"
| "check_capacities (node # rest) =
     (if capacity node \<le>s 0 then INVALID_CAPACITY else check_capacities rest)"

definition validate_input ::
  "int list list \<Rightarrow> NodeData list \<Rightarrow> (int \<times> int) list \<Rightarrow> InputValidationResult" where
  "validate_input adj_matrix ns destinations =
     (if \<not> is_graph_connected adj_matrix then DISCONNECTED_GRAPH
      else if \<not> are_destinations_reachable adj_matrix destinations then UNREACHABLE_DESTINATION
      else check_capacities ns)"

section \<open>Helper facts on 32-bit signed arithmetic\<close>

lemma sint32_inc:
  "sint (x :: int32) < 2147483647 \<Longrightarrow> sint (x + 1) = sint x + 1"
proof -
  assume a: "sint x < 2147483647"
  have lo: "- 2147483648 \<le> sint x"
    using sint_ge [of x] by simp
  have "sint (x + 1) = signed_take_bit 31 (sint x + 1)"
    by (simp add: sint_word_add [of x 1, simplified])
  also have "\<dots> = sint x + 1"
    by (rule signed_take_bit_int_eq_self) (use a lo in simp_all)
  finally show ?thesis .
qed

lemma sint32_dec:
  "- 2147483648 < sint (x :: int32) \<Longrightarrow> sint (x - 1) = sint x - 1"
proof -
  assume a: "- 2147483648 < sint x"
  have hi: "sint x < 2147483648"
    using sint_lt [of x] by simp
  have "sint (x - 1) = signed_take_bit 31 (sint x - 1)"
    by (simp add: sint_word_diff [of x 1, simplified])
  also have "\<dots> = sint x - 1"
    by (rule signed_take_bit_int_eq_self) (use a hi in simp_all)
  finally show ?thesis .
qed

lemma sint32_upper: "sint (x :: int32) \<le> 2147483647"
  using sint_lt [of x] by simp

lemma sint32_lower: "- 2147483648 \<le> sint (x :: int32)"
  using sint_ge [of x] by simp

section \<open>Admission boundary\<close>

text \<open>
  C1. For a node index in range, a Regular vehicle is admitted exactly when the
  occupancy is below the capacity, and an Ambulance or FireTruck exactly when it is
  below capacity + 1 (for a capacity below the largest \<^verbatim>\<open>int\<close>, so that capacity + 1
  exists). At occupancy equal to capacity the Regular vehicle is denied and the
  emergency vehicle admitted; at occupancy capacity + 1 both are denied.
\<close>

theorem can_move_to_node_safe_boundary:
  assumes "0 \<le> idx" and "idx < int (length ns)"
    and "t = AMBULANCE \<or> t = FIRE_TRUCK"
  shows "(can_move_to_node_safe ns idx REGULAR
            = (sint (current_vehicles (ns ! nat idx)) < sint (capacity (ns ! nat idx))))
       \<and> (sint (capacity (ns ! nat idx)) < 2147483647 \<longrightarrow>
            (can_move_to_node_safe ns idx t
               = (sint (current_vehicles (ns ! nat idx)) < sint (capacity (ns ! nat idx)) + 1))
          \<and> (current_vehicles (ns ! nat idx) = capacity (ns ! nat idx) \<longrightarrow>
               \<not> can_move_to_node_safe ns idx REGULAR \<and> can_move_to_node_safe ns idx t)
          \<and> (current_vehicles (ns ! nat idx) = capacity (ns ! nat idx) + 1 \<longrightarrow>
               \<not> can_move_to_node_safe ns idx REGULAR \<and> \<not> can_move_to_node_safe ns idx t))"
proof -
  let ?c = "capacity (ns ! nat idx)"
  let ?o = "current_vehicles (ns ! nat idx)"
  have tr: "t \<noteq> REGULAR" using assms(3) by auto
  have r: "can_move_to_node_safe ns idx REGULAR = (sint ?o < sint ?c)"
    using assms(1,2) by (simp add: can_move_to_node_safe_def word_sless_alt)
  have e: "can_move_to_node_safe ns idx t = (sint ?o < sint (?c + 1))"
    using assms(1,2) tr by (simp add: can_move_to_node_safe_def word_sless_alt)
  show ?thesis
  proof (cases "sint ?c < 2147483647")
    case True
    then have inc: "sint (?c + 1) = sint ?c + 1"
      by (rule sint32_inc)
    show ?thesis using r e inc by simp
  next
    case False
    then show ?thesis using r by simp
  qed
qed

theorem can_move_to_node_safe_boundary_witness:
  "\<not> can_move_to_node_safe
       [(NodeData_init 0 CHR ''A'' WAIT_NODE 3)\<lparr>current_vehicles := 3\<rparr>] 0 REGULAR
   \<and> can_move_to_node_safe
       [(NodeData_init 0 CHR ''A'' WAIT_NODE 3)\<lparr>current_vehicles := 3\<rparr>] 0 AMBULANCE
   \<and> \<not> can_move_to_node_safe
       [(NodeData_init 0 CHR ''A'' WAIT_NODE 3)\<lparr>current_vehicles := 4\<rparr>] 0 AMBULANCE"
  using can_move_to_node_safe_boundary
          [of 0 "[(NodeData_init 0 CHR ''A'' WAIT_NODE 3)\<lparr>current_vehicles := 3\<rparr>]" AMBULANCE]
        can_move_to_node_safe_boundary
          [of 0 "[(NodeData_init 0 CHR ''A'' WAIT_NODE 3)\<lparr>current_vehicles := 4\<rparr>]" AMBULANCE]
  by (simp add: NodeData_init_def)

section \<open>Validator outcomes\<close>

lemma check_capacities_outcomes:
  "check_capacities ns = INPUT_VALID \<or> check_capacities ns = INVALID_CAPACITY"
  by (induction ns) auto

text \<open>
  C10. Whatever the adjacency matrix, node list and destinations, \<open>validate_input\<close>
  returns INPUT_VALID, DISCONNECTED_GRAPH, UNREACHABLE_DESTINATION or INVALID_CAPACITY,
  never INVALID_TRAFFIC_CONTROLLER or INVALID_ADJACENCY_MATRIX; and each of the four is
  returned on some input.
\<close>

theorem validate_input_outcomes:
  "(validate_input adj ns dests = INPUT_VALID
      \<or> validate_input adj ns dests = DISCONNECTED_GRAPH
      \<or> validate_input adj ns dests = UNREACHABLE_DESTINATION
      \<or> validate_input adj ns dests = INVALID_CAPACITY)
   \<and> validate_input adj ns dests \<noteq> INVALID_TRAFFIC_CONTROLLER
   \<and> validate_input adj ns dests \<noteq> INVALID_ADJACENCY_MATRIX
   \<and> validate_input [[0]] [NodeData_init 0 CHR ''A'' WAIT_NODE 5] [] = INPUT_VALID
   \<and> validate_input [] [] [] = DISCONNECTED_GRAPH
   \<and> validate_input [[0]] [NodeData_init 0 CHR ''A'' WAIT_NODE 5] [(0, 1)]
        = UNREACHABLE_DESTINATION
   \<and> validate_input [[0]] [NodeData_init 0 CHR ''A'' WAIT_NODE 0] [] = INVALID_CAPACITY"
proof -
  have four: "validate_input adj ns dests = INPUT_VALID
      \<or> validate_input adj ns dests = DISCONNECTED_GRAPH
      \<or> validate_input adj ns dests = UNREACHABLE_DESTINATION
      \<or> validate_input adj ns dests = INVALID_CAPACITY"
    using check_capacities_outcomes [of ns] by (auto simp: validate_input_def)
  have conn: "is_graph_connected [[0]]"
    by (simp add: is_graph_connected_def)
  have e1: "validate_input [[0]] [NodeData_init 0 CHR ''A'' WAIT_NODE 5] [] = INPUT_VALID"
    using conn by (simp add: validate_input_def NodeData_init_def word_sle_eq)
  have e2: "validate_input [] [] [] = DISCONNECTED_GRAPH"
    by (simp add: validate_input_def is_graph_connected_def)
  have e3: "validate_input [[0]] [NodeData_init 0 CHR ''A'' WAIT_NODE 5] [(0, 1)]
      = UNREACHABLE_DESTINATION"
    using conn by (simp add: validate_input_def is_path_exists_def)
  have e4: "validate_input [[0]] [NodeData_init 0 CHR ''A'' WAIT_NODE 0] [] = INVALID_CAPACITY"
    using conn by (simp add: validate_input_def NodeData_init_def)
  from four e1 e2 e3 e4 show ?thesis by auto
qed

section \<open>The heap of the emergency queue\<close>

text \<open>\<^verbatim>\<open>operator<\<close> is a strict weak order.\<close>

lemma vehicle_less_irrefl: "\<not> vehicle_less a a"
  by (simp add: vehicle_less_def)

lemma vehicle_less_asym: "vehicle_less a b \<Longrightarrow> \<not> vehicle_less b a"
  by (cases "vtype a"; cases "vtype b") (auto simp: vehicle_less_def split: if_splits)

lemma vehicle_less_trans:
  "vehicle_less a b \<Longrightarrow> vehicle_less b c \<Longrightarrow> vehicle_less a c"
  by (cases "vtype a"; cases "vtype b"; cases "vtype c")
     (auto simp: vehicle_less_def split: if_splits)

lemma not_vehicle_less_iff:
  "(\<not> vehicle_less a b) =
     (type_rank (vtype b) \<le> type_rank (vtype a)
      \<and> (vtype a = vtype b \<longrightarrow> arrival_time a \<le> arrival_time b))"
  by (cases "vtype a"; cases "vtype b") (auto simp: vehicle_less_def)

lemma vehicle_not_less_trans:
  "\<not> vehicle_less a b \<Longrightarrow> \<not> vehicle_less b c \<Longrightarrow> \<not> vehicle_less a c"
  by (cases "vtype a"; cases "vtype b"; cases "vtype c")
     (auto simp: vehicle_less_def split: if_splits)

lemma vehicle_less_not_less:
  "vehicle_less a v \<Longrightarrow> \<not> vehicle_less a s \<Longrightarrow> \<not> vehicle_less v s"
  using vehicle_less_trans by blast

text \<open>
  A vector is a heap when no element is less than an element it is the parent of; the
  parent of index \<open>i\<close> is \<open>(i - 1) div 2\<close>.
\<close>

definition is_heap :: "Vehicle list \<Rightarrow> bool" where
  "is_heap c = list_all (\<lambda>i. \<not> vehicle_less (c ! ((i - 1) div 2)) (c ! i)) [1..<length c]"

lemma is_heap_iff:
  "is_heap c = (\<forall>i. 0 < i \<and> i < length c \<longrightarrow> \<not> vehicle_less (c ! ((i - 1) div 2)) (c ! i))"
  by (auto simp: is_heap_def list_all_iff)

lemma child_iff:
  "0 < (i::nat) \<Longrightarrow> ((i - 1) div 2 = h) = (i = 2 * h + 1 \<or> i = 2 * h + 2)"
  by arith

lemma parent_less: "0 < (i::nat) \<Longrightarrow> (i - 1) div 2 < i"
  by arith

text \<open>The first element of a heap is not less than any element.\<close>

lemma is_heap_top:
  assumes "is_heap c" and "i < length c"
  shows "\<not> vehicle_less (c ! 0) (c ! i)"
  using assms(2)
proof (induction i rule: less_induct)
  case (less i)
  show ?case
  proof (cases "i = 0")
    case True
    then show ?thesis by (simp add: vehicle_less_irrefl)
  next
    case False
    let ?p = "(i - 1) div 2"
    have p: "?p < i" using False by (simp add: parent_less)
    have "\<not> vehicle_less (c ! 0) (c ! ?p)" using less.IH [OF p] p less.prems by simp
    moreover have "\<not> vehicle_less (c ! ?p) (c ! i)"
      using assms(1) False less.prems by (simp add: is_heap_iff)
    ultimately show ?thesis by (rule vehicle_not_less_trans)
  qed
qed

text \<open>
  A heap with a hole at \<open>h\<close>: the heap condition holds between every two places other
  than \<open>h\<close>, and the parent of \<open>h\<close> is not less than the children of \<open>h\<close>.
\<close>

definition hole_heap :: "Vehicle list \<Rightarrow> nat \<Rightarrow> bool" where
  "hole_heap c h =
     ((\<forall>i. 0 < i \<and> i < length c \<and> i \<noteq> h \<and> (i - 1) div 2 \<noteq> h \<longrightarrow>
          \<not> vehicle_less (c ! ((i - 1) div 2)) (c ! i))
      \<and> (0 < h \<longrightarrow>
           (\<forall>i. 0 < i \<and> i < length c \<and> (i - 1) div 2 = h \<longrightarrow>
               \<not> vehicle_less (c ! ((h - 1) div 2)) (c ! i))))"

lemma hole_heapD1:
  "hole_heap c h \<Longrightarrow> 0 < i \<Longrightarrow> i < length c \<Longrightarrow> i \<noteq> h \<Longrightarrow> (i - 1) div 2 \<noteq> h \<Longrightarrow>
     \<not> vehicle_less (c ! ((i - 1) div 2)) (c ! i)"
  by (simp add: hole_heap_def)

lemma hole_heapD2:
  "hole_heap c h \<Longrightarrow> 0 < h \<Longrightarrow> 0 < i \<Longrightarrow> i < length c \<Longrightarrow> (i - 1) div 2 = h \<Longrightarrow>
     \<not> vehicle_less (c ! ((h - 1) div 2)) (c ! i)"
  by (simp add: hole_heap_def)

lemma hole_heapI:
  assumes "\<And>i. 0 < i \<Longrightarrow> i < length c \<Longrightarrow> i \<noteq> h \<Longrightarrow> (i - 1) div 2 \<noteq> h \<Longrightarrow>
             \<not> vehicle_less (c ! ((i - 1) div 2)) (c ! i)"
    and "\<And>i. 0 < h \<Longrightarrow> 0 < i \<Longrightarrow> i < length c \<Longrightarrow> (i - 1) div 2 = h \<Longrightarrow>
             \<not> vehicle_less (c ! ((h - 1) div 2)) (c ! i)"
  shows "hole_heap c h"
  unfolding hole_heap_def using assms by blast

lemma is_heap_hole_heap: "is_heap c \<Longrightarrow> hole_heap c 0"
  by (simp add: hole_heap_def is_heap_iff)

declare push_heap_hole.simps [simp del]
declare adjust_heap_down.simps [simp del]

text \<open>One step up of the hole keeps the heap with a hole.\<close>

lemma hole_heap_up:
  assumes hh: "hole_heap c h" and h: "0 < h" "h < length c"
    and lt: "vehicle_less (c ! ((h - 1) div 2)) v"
    and ch: "\<And>i. 0 < i \<Longrightarrow> i < length c \<Longrightarrow> (i - 1) div 2 = h \<Longrightarrow> \<not> vehicle_less v (c ! i)"
  shows "hole_heap (c[h := c ! ((h - 1) div 2)]) ((h - 1) div 2)"
    and "\<And>i. 0 < i \<Longrightarrow> i < length c \<Longrightarrow> (i - 1) div 2 = (h - 1) div 2 \<Longrightarrow>
           \<not> vehicle_less v (c[h := c ! ((h - 1) div 2)] ! i)"
proof -
  let ?p = "(h - 1) div 2"
  let ?c = "c[h := c ! ?p]"
  have ph: "?p < h" using h(1) by (rule parent_less)
  show "\<not> vehicle_less v (?c ! i)" if i: "0 < i" "i < length c" "(i - 1) div 2 = ?p" for i
  proof (cases "i = h")
    case True
    then show ?thesis using h(2) lt vehicle_less_asym by simp
  next
    case False
    have "\<not> vehicle_less (c ! ?p) (c ! i)"
      using hole_heapD1 [OF hh i(1,2) False] i(3) ph by simp
    then have "\<not> vehicle_less v (c ! i)" using lt vehicle_less_not_less by blast
    then show ?thesis using False by simp
  qed
  show "hole_heap ?c ?p"
  proof (rule hole_heapI)
    fix i
    assume i: "0 < i" "i < length ?c" "i \<noteq> ?p" "(i - 1) div 2 \<noteq> ?p"
    have il: "i < length c" using i(2) by simp
    have ih: "i \<noteq> h" using i(4) by auto
    show "\<not> vehicle_less (?c ! ((i - 1) div 2)) (?c ! i)"
    proof (cases "(i - 1) div 2 = h")
      case True
      have "\<not> vehicle_less (c ! ?p) (c ! i)"
        using hole_heapD2 [OF hh h(1) i(1) il True] .
      then show ?thesis using True ih h(2) by simp
    next
      case False
      then show ?thesis using hole_heapD1 [OF hh i(1) il ih False] ih by simp
    qed
  next
    fix i
    assume p0: "0 < ?p" and i: "0 < i" "i < length ?c" "(i - 1) div 2 = ?p"
    let ?pp = "(?p - 1) div 2"
    have il: "i < length c" using i(2) by simp
    have pp: "?pp < ?p" using p0 by (rule parent_less)
    have pl: "?p < length c" using ph h(2) by simp
    have e1: "\<not> vehicle_less (c ! ?pp) (c ! ?p)"
      using hole_heapD1 [OF hh p0 pl] ph pp by simp
    have cpp: "?c ! ?pp = c ! ?pp" using pp ph by simp
    show "\<not> vehicle_less (?c ! ?pp) (?c ! i)"
    proof (cases "i = h")
      case True
      then show ?thesis using e1 cpp h(2) by simp
    next
      case False
      have "\<not> vehicle_less (c ! ?p) (c ! i)"
        using hole_heapD1 [OF hh i(1) il False] i(3) ph by simp
      then have "\<not> vehicle_less (c ! ?pp) (c ! i)"
        using e1 vehicle_not_less_trans by blast
      then show ?thesis using cpp False by simp
    qed
  qed
qed

text \<open>Filling the hole with a value that fits gives a heap.\<close>

lemma hole_heap_fill:
  assumes hh: "hole_heap c h" and h: "h < length c"
    and up: "0 < h \<Longrightarrow> \<not> vehicle_less (c ! ((h - 1) div 2)) v"
    and ch: "\<And>i. 0 < i \<Longrightarrow> i < length c \<Longrightarrow> (i - 1) div 2 = h \<Longrightarrow> \<not> vehicle_less v (c ! i)"
  shows "is_heap (c[h := v])"
  unfolding is_heap_iff
proof (intro allI impI)
  fix i
  assume "0 < i \<and> i < length (c[h := v])"
  then have i: "0 < i" "i < length c" by simp_all
  have pi: "(i - 1) div 2 < i" using i(1) by (rule parent_less)
  show "\<not> vehicle_less (c[h := v] ! ((i - 1) div 2)) (c[h := v] ! i)"
  proof (cases "i = h")
    case True
    then show ?thesis using up i pi h by simp
  next
    case False
    show ?thesis
    proof (cases "(i - 1) div 2 = h")
      case True
      then show ?thesis using ch [OF i True] False h by simp
    next
      case p: False
      then show ?thesis using hole_heapD1 [OF hh i False p] False by simp
    qed
  qed
qed

lemma push_heap_hole_heap:
  assumes "hole_heap c h" and "h < length c"
    and "\<And>i. 0 < i \<Longrightarrow> i < length c \<Longrightarrow> (i - 1) div 2 = h \<Longrightarrow> \<not> vehicle_less v (c ! i)"
  shows "is_heap (push_heap_hole c h 0 v)"
  using assms
proof (induction h arbitrary: c rule: less_induct)
  case (less h)
  let ?p = "(h - 1) div 2"
  show ?case
  proof (cases "0 < h \<and> vehicle_less (c ! ?p) v")
    case True
    let ?c = "c[h := c ! ?p]"
    have ph: "?p < h" using True parent_less [of h] by auto
    have a: "hole_heap ?c ?p"
      using hole_heap_up(1) [OF less.prems(1) _ less.prems(2) _ less.prems(3)] True by blast
    have b: "\<not> vehicle_less v (?c ! i)"
      if "0 < i" "i < length ?c" "(i - 1) div 2 = ?p" for i
      using hole_heap_up(2) [OF less.prems(1) _ less.prems(2) _ less.prems(3), of i] True that
      by simp
    have "is_heap (push_heap_hole ?c ?p 0 v)"
      using less.IH [OF ph a _ b] ph less.prems(2) by simp
    then show ?thesis
      using True by (subst push_heap_hole.simps) (simp add: Let_def)
  next
    case False
    have "is_heap (c[h := v])"
      using hole_heap_fill [OF less.prems(1,2) _ less.prems(3)] False by blast
    then show ?thesis
      using False by (subst push_heap_hole.simps) (auto simp: Let_def)
  qed
qed

lemma mset_update_move:
  assumes "h < length c" and "p < length c"
  shows "mset (c[h := c ! p, p := x]) = mset (c[h := x])"
proof -
  let ?d = "c[h := x]"
  have l: "h < length ?d" "p < length ?d" using assms by simp_all
  have "mset (?d[h := ?d ! p, p := ?d ! h]) = mset ?d"
    using mset_swap [OF l(2) l(1)] .
  moreover have "?d[h := ?d ! p, p := ?d ! h] = c[h := c ! p, p := x]"
    using assms by (cases "p = h") simp_all
  ultimately show ?thesis by simp
qed

lemma push_heap_hole_mset:
  "h < length c \<Longrightarrow> mset (push_heap_hole c h t v) = mset (c[h := v])"
proof (induction h arbitrary: c rule: less_induct)
  case (less h)
  let ?p = "(h - 1) div 2"
  show ?case
  proof (cases "t < h \<and> vehicle_less (c ! ?p) v")
    case True
    let ?c = "c[h := c ! ?p]"
    have ph: "?p < h" using True parent_less [of h] by auto
    have "mset (push_heap_hole ?c ?p t v) = mset (?c[?p := v])"
      using less.IH [OF ph, of ?c] ph less.prems by simp
    also have "\<dots> = mset (c[h := v])"
      using mset_update_move [of h c ?p v] ph less.prems by simp
    finally show ?thesis
      using True by (subst push_heap_hole.simps) (simp add: Let_def)
  next
    case False
    then show ?thesis by (subst push_heap_hole.simps) (auto simp: Let_def)
  qed
qed

lemma push_heap_hole_length:
  "length (push_heap_hole c h t v) = length c"
proof (induction h arbitrary: c rule: less_induct)
  case (less h)
  let ?p = "(h - 1) div 2"
  show ?case
  proof (cases "t < h \<and> vehicle_less (c ! ?p) v")
    case True
    have ph: "?p < h" using True parent_less [of h] by auto
    show ?thesis
      using True less.IH [OF ph, of "c[h := c ! ?p]"]
      by (subst push_heap_hole.simps) (simp add: Let_def)
  next
    case False
    then show ?thesis by (subst push_heap_hole.simps) (auto simp: Let_def)
  qed
qed

text \<open>One step down of the hole, to a child that is not less than the other child.\<close>

lemma hole_heap_down:
  assumes hh: "hole_heap c h" and s: "0 < s" "s < length c" "(s - 1) div 2 = h"
    and best: "\<And>i. 0 < i \<Longrightarrow> i < length c \<Longrightarrow> (i - 1) div 2 = h \<Longrightarrow>
                 \<not> vehicle_less (c ! s) (c ! i)"
  shows "hole_heap (c[h := c ! s]) s"
proof (rule hole_heapI)
  let ?c = "c[h := c ! s]"
  have hs: "h < s" using parent_less [OF s(1)] s(3) by simp
  have hl: "h < length c" using hs s(2) by simp
  fix i
  assume i: "0 < i" "i < length ?c" "i \<noteq> s" "(i - 1) div 2 \<noteq> s"
  have il: "i < length c" using i(2) by simp
  have pi: "(i - 1) div 2 < i" using i(1) by (rule parent_less)
  show "\<not> vehicle_less (?c ! ((i - 1) div 2)) (?c ! i)"
  proof (cases "i = h")
    case True
    have "\<not> vehicle_less (c ! ((h - 1) div 2)) (c ! s)"
      using hole_heapD2 [OF hh _ s] i(1) True by simp
    then show ?thesis using True pi hl by simp
  next
    case False
    show ?thesis
    proof (cases "(i - 1) div 2 = h")
      case True
      then show ?thesis using best [OF i(1) il True] False hl by simp
    next
      case p: False
      then show ?thesis using hole_heapD1 [OF hh i(1) il False p] False by simp
    qed
  qed
next
  let ?c = "c[h := c ! s]"
  have hs: "h < s" using parent_less [OF s(1)] s(3) by simp
  have hl: "h < length c" using hs s(2) by simp
  fix i
  assume i: "0 < i" "i < length ?c" "(i - 1) div 2 = s"
  have il: "i < length c" using i(2) by simp
  have si: "s < i" using parent_less [OF i(1)] i(3) by simp
  have "\<not> vehicle_less (c ! s) (c ! i)"
    using hole_heapD1 [OF hh i(1) il] i(3) hs si by simp
  then show "\<not> vehicle_less (?c ! ((s - 1) div 2)) (?c ! i)"
    using s(3) hl hs si by simp
qed

lemma adjust_heap_down_result:
  assumes "adjust_heap_down c h s len = (c', h', s')"
    and "s = h" and "len = length c" and "h < len"
  shows "(hole_heap c h \<longrightarrow> hole_heap c' h') \<and> s' = h' \<and> length c' = length c \<and> h' < len
       \<and> \<not> h' < (len - 1) div 2
       \<and> (\<forall>x. mset (c'[h' := x]) = mset (c[h := x]))"
  using assms
proof (induction c h s len arbitrary: c' h' s' rule: adjust_heap_down.induct)
  case (1 c h s len)
  note sh = \<open>s = h\<close> and len = \<open>len = length c\<close> and hl = \<open>h < len\<close>
  show ?case
  proof (cases "h < (len - 1) div 2")
    case False
    then have "adjust_heap_down c h s len = (c, h, s)"
      using sh by (subst adjust_heap_down.simps) simp
    then show ?thesis using "1.prems"(1) sh hl False by simp
  next
    case True
    let ?r = "2 * (h + 1)"
    let ?s = "if vehicle_less (c ! ?r) (c ! (?r - 1)) then ?r - 1 else ?r"
    let ?c = "c[h := c ! ?s]"
    have r: "?r < len" using True by arith
    have s: "0 < ?s" "?s < length c" "(?s - 1) div 2 = h"
      using r len by auto
    have best: "\<not> vehicle_less (c ! ?s) (c ! i)"
      if i: "0 < i" "i < length c" "(i - 1) div 2 = h" for i
    proof -
      have "i = 2 * h + 1 \<or> i = 2 * h + 2" using child_iff [OF i(1), of h] i(3) by simp
      then have "i = ?r - 1 \<or> i = ?r" by auto
      then show ?thesis
        using vehicle_less_asym [of "c ! ?r" "c ! (?r - 1)"] vehicle_less_irrefl
        by (auto split: if_splits)
    qed
    have hh': "hole_heap ?c ?s" if "hole_heap c h" using hole_heap_down [OF that s best] .
    have run: "adjust_heap_down c h s len = adjust_heap_down ?c ?s ?s len"
      using True sh by (subst adjust_heap_down.simps) (simp add: Let_def)
    then have res: "adjust_heap_down ?c ?s ?s len = (c', h', s')"
      using "1.prems"(1) by simp
    have cond: "s < (len - 1) div 2" using True sh by simp
    have r': "2 * (s + 1) = ?r" using sh by simp
    have sl: "?s < len" using s(2) len by simp
    have len': "len = length ?c" using len by simp
    have IH: "(hole_heap ?c ?s \<longrightarrow> hole_heap c' h') \<and> s' = h' \<and> length c' = length ?c
       \<and> h' < len \<and> \<not> h' < (len - 1) div 2
       \<and> (\<forall>x. mset (c'[h' := x]) = mset (?c[?s := x]))"
      using "1.IH" [OF cond refl refl, unfolded r' sh, OF res refl len' sl] .
    have "mset (?c[?s := x]) = mset (c[h := x])" for x
      using mset_update_move [of h c ?s x] hl len s(2) by simp
    then show ?thesis using IH hh' by simp
  qed
qed

text \<open>\<^verbatim>\<open>__adjust_heap\<close> from the top of a heap with a hole there.\<close>

lemma adjust_heap_result:
  assumes len: "len = length c" "0 < len"
  shows "(hole_heap c 0 \<longrightarrow> is_heap (adjust_heap c 0 len v))
       \<and> mset (adjust_heap c 0 len v) = mset (c[0 := v])"
proof -
  obtain c' h' s' where run: "adjust_heap_down c 0 0 len = (c', h', s')"
    by (cases "adjust_heap_down c 0 0 len")
  have r: "hole_heap c 0 \<Longrightarrow> hole_heap c' h'" "s' = h'" "length c' = length c" "h' < len"
      "\<not> h' < (len - 1) div 2" "\<And>x. mset (c'[h' := x]) = mset (c[0 := x])"
    using adjust_heap_down_result [OF run refl len(1) len(2)] by simp_all
  show ?thesis
  proof (cases "even len \<and> s' = (len - 2) div 2")
    case True
    let ?k = "2 * (s' + 1) - 1"
    let ?c = "c'[h' := c' ! ?k]"
    from True obtain b where b: "len = 2 * b" by (auto elim: evenE)
    have b0: "0 < b" using b len(2) by simp
    have sb: "s' = b - 1" using True b by simp
    have k: "?k = len - 1" "0 < ?k" "?k < length c'" "(?k - 1) div 2 = h'"
      using sb b b0 r(2,3) len(1) by auto
    have only: "i = ?k" if "0 < i" "i < length c'" "(i - 1) div 2 = h'" for i
      using child_iff [OF that(1), of h'] that k(1) r(2,3) len(1) sb b b0 by auto
    have best: "\<not> vehicle_less (c' ! ?k) (c' ! i)"
      if "0 < i" "i < length c'" "(i - 1) div 2 = h'" for i
      using only [OF that] vehicle_less_irrefl by simp
    have hk: "hole_heap ?c ?k" if hc: "hole_heap c 0"
      using hole_heap_down [OF r(1) [OF hc] k(2,3,4) best] .
    have lf: "\<not> vehicle_less v (?c ! i)"
      if "0 < i" "i < length ?c" "(i - 1) div 2 = ?k" for i
    proof -
      have "i = 2 * ?k + 1 \<or> i = 2 * ?k + 2" using child_iff [OF that(1), of ?k] that(3) by simp
      then have False using that(2) k(1) r(3) len by auto
      then show ?thesis ..
    qed
    have kl: "?k < length ?c" using k(3) by simp
    have "is_heap (push_heap_hole ?c ?k 0 v)" if hc: "hole_heap c 0"
      using push_heap_hole_heap [OF hk [OF hc] kl lf] by simp
    moreover have "mset (push_heap_hole ?c ?k 0 v) = mset (c[0 := v])"
      using push_heap_hole_mset [of ?k ?c 0 v] k(3)
        mset_update_move [of h' c' ?k v] r(3,4,6) len by simp
    moreover have "adjust_heap c 0 len v = push_heap_hole ?c ?k 0 v"
      using True run len(2) by (simp add: adjust_heap_def Let_def)
    ultimately show ?thesis by simp
  next
    case False
    have leaf: "\<not> vehicle_less v (c' ! i)"
      if "0 < i" "i < length c'" "(i - 1) div 2 = h'" for i
    proof -
      have "i = 2 * h' + 1 \<or> i = 2 * h' + 2" using child_iff [OF that(1), of h'] that(3) by simp
      then have "2 * h' + 1 < len" using that(2) r(3) len by auto
      then have False using r(5) False r(2) by (cases "even len") (auto elim!: evenE oddE)
      then show ?thesis ..
    qed
    have "is_heap (push_heap_hole c' h' 0 v)" if hc: "hole_heap c 0"
      using push_heap_hole_heap [OF r(1) [OF hc] _ leaf] r(3,4) len by simp
    moreover have "mset (push_heap_hole c' h' 0 v) = mset (c[0 := v])"
      using push_heap_hole_mset [of h' c' 0 v] r(3,4,6) len by simp
    moreover have "adjust_heap c 0 len v = push_heap_hole c' h' 0 v"
      using False run by (auto simp add: adjust_heap_def Let_def)
    ultimately show ?thesis by simp
  qed
qed

text \<open>What \<^verbatim>\<open>push\<close>, \<^verbatim>\<open>top\<close> and \<^verbatim>\<open>pop\<close> do to the elements and to the heap.\<close>

lemma is_heap_butlast: "is_heap c \<Longrightarrow> is_heap (butlast c)"
proof -
  assume h: "is_heap c"
  have "\<not> vehicle_less (butlast c ! ((i - 1) div 2)) (butlast c ! i)"
    if i: "0 < i" "i < length (butlast c)" for i
  proof -
    have "(i - 1) div 2 < i" using i(1) by (rule parent_less)
    then show ?thesis using h i by (simp add: is_heap_iff nth_butlast)
  qed
  then show ?thesis by (simp add: is_heap_iff)
qed

lemma mset_pq_push [simp]: "mset (pq_push v q) = add_mset v (mset q)"
  using push_heap_hole_mset [of "length q" "q @ [v]" 0 v]
  by (simp add: pq_push_def push_heap_def)

lemma length_pq_push [simp]: "length (pq_push v q) = Suc (length q)"
  by (simp add: pq_push_def push_heap_def push_heap_hole_length)

lemma set_pq_push [simp]: "set (pq_push v q) = insert v (set q)"
proof -
  have "set_mset (mset (pq_push v q)) = set_mset (add_mset v (mset q))" by simp
  then show ?thesis by (simp del: mset_pq_push)
qed

lemma is_heap_pq_push:
  assumes "is_heap q"
  shows "is_heap (pq_push v q)"
proof -
  let ?c = "q @ [v]"
  let ?h = "length q"
  have "hole_heap ?c ?h"
  proof (rule hole_heapI)
    fix i
    assume i: "0 < i" "i < length ?c" "i \<noteq> ?h" "(i - 1) div 2 \<noteq> ?h"
    have il: "i < length q" using i(2,3) by simp
    have "(i - 1) div 2 < i" using i(1) by (rule parent_less)
    then show "\<not> vehicle_less (?c ! ((i - 1) div 2)) (?c ! i)"
      using assms i(1) il by (simp add: is_heap_iff nth_append)
  next
    fix i
    assume i: "0 < i" "i < length ?c" "(i - 1) div 2 = ?h"
    have "(i - 1) div 2 < i" using i(1) by (rule parent_less)
    then have False using i(2,3) by simp
    then show "\<not> vehicle_less (?c ! ((?h - 1) div 2)) (?c ! i)" ..
  qed
  moreover have "?h < length ?c" by simp
  moreover have "\<not> vehicle_less v (?c ! i)"
    if i: "0 < i" "i < length ?c" "(i - 1) div 2 = ?h" for i
  proof -
    have "(i - 1) div 2 < i" using i(1) by (rule parent_less)
    then have False using i(2,3) by simp
    then show ?thesis ..
  qed
  ultimately have "is_heap (push_heap_hole ?c ?h 0 v)"
    by (rule push_heap_hole_heap)
  then show ?thesis by (simp add: pq_push_def push_heap_def)
qed

lemma pq_pop_short: "length q \<le> 1 \<Longrightarrow> pq_pop q = []"
  by (cases q) (simp_all add: pq_pop_def pop_heap_def)

lemma pq_pop_long:
  "1 < length q \<Longrightarrow> pq_pop q = adjust_heap (butlast q) 0 (length q - 1) (last q)"
  by (simp add: pq_pop_def pop_heap_def)

lemma mset_pq_pop: "q \<noteq> [] \<Longrightarrow> add_mset (pq_top q) (mset (pq_pop q)) = mset q"
proof (cases "1 < length q")
  case False
  assume "q \<noteq> []"
  then obtain x where "q = [x]" using False by (cases q) auto
  then show ?thesis by (simp add: pq_pop_short pq_top_def)
next
  case True
  obtain x r where q: "q = x # r" and r: "r \<noteq> []" using True by (cases q) auto
  have b: "butlast q = x # butlast r" "last q = last r" using q r by simp_all
  have l: "length q - 1 = length (butlast q)" "0 < length q - 1" using True by simp_all
  have "mset (pq_pop q) = mset ((butlast q)[0 := last q])"
    using True adjust_heap_result [OF l, of "last q"] by (simp add: pq_pop_long)
  also have "\<dots> = mset r"
  proof -
    have "(butlast q)[0 := last q] = last r # butlast r" using b by simp
    moreover have "mset (butlast r @ [last r]) = mset r" using r by simp
    ultimately show ?thesis by simp
  qed
  finally show ?thesis using q by (simp add: pq_top_def)
qed

lemma length_pq_pop: "q \<noteq> [] \<Longrightarrow> Suc (length (pq_pop q)) = length q"
proof -
  assume "q \<noteq> []"
  then have "size (add_mset (pq_top q) (mset (pq_pop q))) = size (mset q)"
    using mset_pq_pop [of q] by simp
  then show ?thesis by simp
qed

lemma set_pq_pop_subset: "set (pq_pop q) \<subseteq> set q"
proof (cases "q = []")
  case True
  then show ?thesis by (simp add: pq_pop_short)
next
  case False
  have "set_mset (mset q) = insert (pq_top q) (set_mset (mset (pq_pop q)))"
    using mset_pq_pop [OF False] by (metis set_mset_add_mset_insert)
  then show ?thesis by auto
qed

lemma is_heap_pq_pop:
  assumes "is_heap q"
  shows "is_heap (pq_pop q)"
proof (cases "1 < length q")
  case False
  then show ?thesis by (simp add: pq_pop_short is_heap_def)
next
  case True
  have l: "length q - 1 = length (butlast q)" "0 < length q - 1" using True by simp_all
  have "hole_heap (butlast q) 0"
    using is_heap_hole_heap [OF is_heap_butlast [OF assms]] .
  then show ?thesis
    using True adjust_heap_result [OF l, of "last q"] by (simp add: pq_pop_long)
qed

lemma pq_top_mem: "q \<noteq> [] \<Longrightarrow> pq_top q \<in> set q"
  by (simp add: pq_top_def)

lemma pq_top_greatest:
  assumes "is_heap q" and "w \<in> set q"
  shows "\<not> vehicle_less (pq_top q) w"
proof -
  obtain i where i: "i < length q" "q ! i = w" using assms(2) by (auto simp: in_set_conv_nth)
  have "q \<noteq> []" using assms(2) by auto
  then have "pq_top q = q ! 0" by (simp add: pq_top_def hd_conv_nth)
  then show ?thesis using is_heap_top [OF assms(1) i(1)] i(2) by simp
qed

text \<open>
  Elements that are equal under \<^verbatim>\<open>operator<\<close> need not come out in the order they were
  pushed: four Ambulances with the same arrival time, pushed as 1, 2, 3, 4, come out as
  1, 3, 2, 4.
\<close>

lemma equal_elements_order:
  "pq_push (Vehicle_init 4 AMBULANCE 0 1 0) (pq_push (Vehicle_init 3 AMBULANCE 0 1 0)
     (pq_push (Vehicle_init 2 AMBULANCE 0 1 0) [Vehicle_init 1 AMBULANCE 0 1 0]))
     = [Vehicle_init 1 AMBULANCE 0 1 0, Vehicle_init 2 AMBULANCE 0 1 0,
        Vehicle_init 3 AMBULANCE 0 1 0, Vehicle_init 4 AMBULANCE 0 1 0]
   \<and> pq_pop [Vehicle_init 1 AMBULANCE 0 1 0, Vehicle_init 2 AMBULANCE 0 1 0,
        Vehicle_init 3 AMBULANCE 0 1 0, Vehicle_init 4 AMBULANCE 0 1 0]
     = [Vehicle_init 3 AMBULANCE 0 1 0, Vehicle_init 2 AMBULANCE 0 1 0,
        Vehicle_init 4 AMBULANCE 0 1 0]
   \<and> pq_pop [Vehicle_init 3 AMBULANCE 0 1 0, Vehicle_init 2 AMBULANCE 0 1 0,
        Vehicle_init 4 AMBULANCE 0 1 0]
     = [Vehicle_init 2 AMBULANCE 0 1 0, Vehicle_init 4 AMBULANCE 0 1 0]
   \<and> pq_pop [Vehicle_init 2 AMBULANCE 0 1 0, Vehicle_init 4 AMBULANCE 0 1 0]
     = [Vehicle_init 4 AMBULANCE 0 1 0]"
  by (simp add: pq_push_def push_heap_def push_heap_hole.simps pq_pop_def pop_heap_def
      adjust_heap_def adjust_heap_down.simps vehicle_less_def Vehicle_init_def Let_def)

section \<open>The next vehicle of a node\<close>

text \<open>
  What \<^verbatim>\<open>process_single_vehicle_movement\<close> and \<^verbatim>\<open>process_node_vehicles\<close> take out
  of a node: the top of the emergency queue if there is one, else the front of the
  waiting queue; with the flag \<^verbatim>\<open>is_emergency\<close> and the node after the pop.
\<close>

definition next_dispatched :: "NodeData \<Rightarrow> (Vehicle \<times> bool \<times> NodeData) option" where
  "next_dispatched nd =
     (if has_emergency_vehicles nd
      then Some (pq_top (emergency_queue nd), True,
                 nd\<lparr>emergency_queue := pq_pop (emergency_queue nd)\<rparr>)
      else if waiting_queue nd \<noteq> []
      then Some (hd (waiting_queue nd), False, nd\<lparr>waiting_queue := tl (waiting_queue nd)\<rparr>)
      else None)"

lemma process_single_vehicle_movement_dispatch:
  "i < length (nodes net) \<Longrightarrow>
   process_single_vehicle_movement i net =
     (case next_dispatched (nodes net ! i) of
        None \<Rightarrow> (False, net)
      | Some (vehicle, is_emergency, nd') \<Rightarrow>
          (case process_vehicle_step_by_step vehicle i is_emergency
                  (net\<lparr>nodes := (nodes net)[i := nd']\<rparr>) of
             (moved, vehicle', net') \<Rightarrow> (moved, net')))"
  by (simp add: process_single_vehicle_movement_def next_dispatched_def Let_def upd_node_def)

lemma process_node_vehicles_dispatch:
  "i < length (nodes net) \<Longrightarrow>
   process_node_vehicles i net =
     (case next_dispatched (nodes net ! i) of
        None \<Rightarrow> net
      | Some (vehicle, is_emergency, nd') \<Rightarrow>
          snd (process_vehicle vehicle i is_emergency (net\<lparr>nodes := (nodes net)[i := nd']\<rparr>)))"
  by (simp add: process_node_vehicles_def next_dispatched_def Let_def upd_node_def)

section \<open>The admitted move\<close>

lemma leave_source_queues:
  "j < length (nodes net) \<Longrightarrow>
     waiting_queue (nodes (leave_source i net) ! j) = waiting_queue (nodes net ! j)
     \<and> emergency_queue (nodes (leave_source i net) ! j) = emergency_queue (nodes net ! j)
     \<and> capacity (nodes (leave_source i net) ! j) = capacity (nodes net ! j)
     \<and> adjacent_nodes (nodes (leave_source i net) ! j) = adjacent_nodes (nodes net ! j)"
  by (cases "j = i") (simp_all add: leave_source_def)

lemma leave_source_stats [simp]: "stats (leave_source i net) = stats net"
  by (simp add: leave_source_def)

lemma leave_source_occupancy:
  "j < length (nodes net) \<Longrightarrow>
     current_vehicles (nodes (leave_source i net) ! j) =
       (if j = i \<and> 0 <s current_vehicles (nodes net ! i)
        then current_vehicles (nodes net ! i) - 1
        else current_vehicles (nodes net ! j))"
  by (cases "j = i") (simp_all add: leave_source_def)

lemma sless_dec:
  assumes "0 <s (x :: int32)" and "x <s m"
  shows "x - 1 <s m"
proof -
  have "0 < sint x" using assms(1) by (simp add: word_sless_alt)
  then have "sint (x - 1) = sint x - 1"
    using sint32_dec [of x] by simp
  then show ?thesis using assms(2) by (simp add: word_sless_alt)
qed

text \<open>
  After an allowed admission the second capacity test of \<^verbatim>\<open>perform_vehicle_move\<close>
  succeeds, so the two move functions do the same.
\<close>

lemma perform_vehicle_move_admitted:
  assumes adm: "can_move_to_node_safe (nodes net) to_node (vtype v)"
  shows "perform_vehicle_move v from_node to_node net
           = perform_vehicle_move_with_display v from_node to_node net"
proof -
  let ?t = "nat to_node"
  let ?m = "if vtype v \<noteq> REGULAR then capacity (nodes net ! ?t) + 1
            else capacity (nodes net ! ?t)"
  have rng: "0 \<le> to_node" "?t < length (nodes net)"
    using adm by (auto simp: can_move_to_node_safe_def split: if_splits)
  have chk: "current_vehicles (nodes net ! ?t) <s ?m"
    using adm by (auto simp: can_move_to_node_safe_def Let_def split: if_splits)
  have "current_vehicles (nodes (leave_source from_node net) ! ?t) <s ?m"
  proof (cases "?t = from_node \<and> 0 <s current_vehicles (nodes net ! from_node)")
    case True
    then show ?thesis
      using chk rng leave_source_occupancy [of ?t net from_node] sless_dec by auto
  next
    case False
    then show ?thesis
      using chk rng leave_source_occupancy [of ?t net from_node] by auto
  qed
  moreover have "capacity (nodes (leave_source from_node net) ! ?t) = capacity (nodes net ! ?t)"
    using rng leave_source_queues [of ?t net from_node] by simp
  ultimately show ?thesis
    by (simp add: perform_vehicle_move_def perform_vehicle_move_with_display_def Let_def)
qed

definition move_example :: TrafficNetwork where
  "move_example =
     \<lparr>nodes = [(NodeData_init 0 CHR ''A'' WAIT_NODE 5)\<lparr>current_vehicles := 1,
                  adjacent_nodes := [1]\<rparr>,
               NodeData_init 1 CHR ''B'' WAIT_NODE 3],
      stats = SystemStats_init, next_vehicle_id = 2\<rparr>"

text \<open>
  A Regular vehicle admitted to node 1, which is its destination: the move counter goes
  from 0 to 1 although the trip completes, and the occupancy of node 1 stays 0.
\<close>

theorem admitted_move_counterexample:
  "can_move_to_node_safe (nodes move_example) 1 REGULAR
   \<and> destination_node (Vehicle_init 1 REGULAR 0 1 0) = 1
   \<and> total_moves (stats move_example) = 0
   \<and> total_moves (stats (snd (perform_vehicle_move_with_display
        (Vehicle_init 1 REGULAR 0 1 0) 0 1 move_example))) = 1
   \<and> total_moves (stats (snd (perform_vehicle_move
        (Vehicle_init 1 REGULAR 0 1 0) 0 1 move_example))) = 1
   \<and> current_vehicles (nodes move_example ! 1) = 0
   \<and> current_vehicles (nodes (snd (perform_vehicle_move_with_display
        (Vehicle_init 1 REGULAR 0 1 0) 0 1 move_example)) ! 1) = 0
   \<and> current_vehicles (nodes (snd (perform_vehicle_move
        (Vehicle_init 1 REGULAR 0 1 0) 0 1 move_example)) ! 1) = 0"
  by (simp add: move_example_def can_move_to_node_safe_def NodeData_init_def Vehicle_init_def
      SystemStats_init_def perform_vehicle_move_with_display_def perform_vehicle_move_def
      leave_source_def record_arrival_def upd_node_def upd_stats_def Let_def word_sless_alt)

text \<open>
  A network for two more admitted moves from node 0 to node 1, of vehicles bound for
  node 2: node 1 holds a queued FireTruck and has room for one more vehicle.
\<close>

definition through_example :: TrafficNetwork where
  "through_example =
     \<lparr>nodes = [(NodeData_init 0 CHR ''A'' WAIT_NODE 5)\<lparr>current_vehicles := 1,
                  adjacent_nodes := [1]\<rparr>,
               (NodeData_init 1 CHR ''B'' WAIT_NODE 2)
                  \<lparr>current_vehicles := 1,
                   emergency_queue := [Vehicle_init 7 FIRE_TRUCK 1 2 3],
                   adjacent_nodes := [2]\<rparr>,
               NodeData_init 2 CHR ''C'' WAIT_NODE 3],
      stats = SystemStats_init, next_vehicle_id = 9\<rparr>"

text \<open>
  C9 (amended). For a vehicle whose admission to the candidate node is allowed, both move
  functions do the same. The vehicle's current node becomes the candidate and the
  total-move counter is incremented, whether the trip completes or not. The occupancy of
  the source node is decremented if it is positive. If the candidate is the vehicle's
  destination, the successful-route counter and the processed counter of the vehicle's
  class (Regular or not) are incremented and nothing else changes: the vehicle is put in
  no queue and the candidate's occupancy is not incremented. Otherwise the candidate's
  occupancy is incremented, the vehicle is put in the candidate's waiting queue if it is
  Regular and pushed into its emergency queue if not, and the completion counters stay.
  Every other field of every node, the other counters and the next vehicle id stay.
\<close>

theorem admitted_move_postcondition:
  assumes "can_move_to_node_safe (nodes net) to_node (vtype v)"
    and "from_node < length (nodes net)"
    and "perform_vehicle_move_with_display v from_node to_node net = (v', net')"
  shows "perform_vehicle_move v from_node to_node net = (v', net')
    \<and> v' = v\<lparr>current_node := to_node\<rparr>
    \<and> length (nodes net') = length (nodes net)
    \<and> (\<forall>j<length (nodes net).
          nodes net' ! j = (nodes net ! j)
            \<lparr>current_vehicles :=
               current_vehicles (nodes net ! j)
                 - (if j = from_node \<and> 0 <s current_vehicles (nodes net ! from_node)
                    then 1 else 0)
                 + (if j = nat to_node \<and> to_node \<noteq> destination_node v then 1 else 0),
             waiting_queue :=
               (if j = nat to_node \<and> to_node \<noteq> destination_node v \<and> vtype v = REGULAR
                then waiting_queue (nodes net ! j) @ [v']
                else waiting_queue (nodes net ! j)),
             emergency_queue :=
               (if j = nat to_node \<and> to_node \<noteq> destination_node v \<and> vtype v \<noteq> REGULAR
                then pq_push v' (emergency_queue (nodes net ! j))
                else emergency_queue (nodes net ! j))\<rparr>)
    \<and> stats net' = (stats net)
          \<lparr>total_vehicles_processed :=
             total_vehicles_processed (stats net)
               + (if to_node = destination_node v \<and> vtype v = REGULAR then 1 else 0),
           emergency_vehicles_processed :=
             emergency_vehicles_processed (stats net)
               + (if to_node = destination_node v \<and> vtype v \<noteq> REGULAR then 1 else 0),
           successful_routes :=
             successful_routes (stats net) + (if to_node = destination_node v then 1 else 0),
           total_moves := total_moves (stats net) + 1\<rparr>
    \<and> next_vehicle_id net' = next_vehicle_id net"
proof -
  let ?t = "nat to_node"
  let ?v1 = "v\<lparr>current_node := to_node\<rparr>"
  let ?n2 = "upd_stats (\<lambda>st. st\<lparr>total_moves := total_moves st + 1\<rparr>)
                (leave_source from_node net)"
  have rng: "?t < length (nodes net)"
    using assms(1) by (auto simp: can_move_to_node_safe_def split: if_splits)
  have same: "perform_vehicle_move v from_node to_node net = (v', net')"
    using perform_vehicle_move_admitted [OF assms(1)] assms(3) by simp
  have src: "nodes (leave_source from_node net) ! j = (nodes net ! j)
        \<lparr>current_vehicles :=
           current_vehicles (nodes net ! j)
             - (if j = from_node \<and> 0 <s current_vehicles (nodes net ! from_node)
                then 1 else 0)\<rparr>"
    if "j < length (nodes net)" for j
    using that by (cases "j = from_node") (simp_all add: leave_source_def)
  show ?thesis
  proof (cases "to_node = destination_node v")
    case True
    then have v': "v' = ?v1" and net': "net' = upd_stats (record_arrival ?v1) ?n2"
      using assms(3) by (auto simp add: perform_vehicle_move_with_display_def Let_def)
    have n: "\<forall>j<length (nodes net).
          nodes net' ! j = (nodes net ! j)
            \<lparr>current_vehicles :=
               current_vehicles (nodes net ! j)
                 - (if j = from_node \<and> 0 <s current_vehicles (nodes net ! from_node)
                    then 1 else 0)
                 + (if j = nat to_node \<and> to_node \<noteq> destination_node v then 1 else 0),
             waiting_queue :=
               (if j = nat to_node \<and> to_node \<noteq> destination_node v \<and> vtype v = REGULAR
                then waiting_queue (nodes net ! j) @ [v']
                else waiting_queue (nodes net ! j)),
             emergency_queue :=
               (if j = nat to_node \<and> to_node \<noteq> destination_node v \<and> vtype v \<noteq> REGULAR
                then pq_push v' (emergency_queue (nodes net ! j))
                else emergency_queue (nodes net ! j))\<rparr>"
      using src True unfolding net' by simp
    have st: "stats net' = (stats net)
          \<lparr>total_vehicles_processed :=
             total_vehicles_processed (stats net)
               + (if to_node = destination_node v \<and> vtype v = REGULAR then 1 else 0),
           emergency_vehicles_processed :=
             emergency_vehicles_processed (stats net)
               + (if to_node = destination_node v \<and> vtype v \<noteq> REGULAR then 1 else 0),
           successful_routes :=
             successful_routes (stats net) + (if to_node = destination_node v then 1 else 0),
           total_moves := total_moves (stats net) + 1\<rparr>"
      using True unfolding net' by (simp add: record_arrival_def Let_def)
    have "length (nodes net') = length (nodes net)" "next_vehicle_id net' = next_vehicle_id net"
      unfolding net' by (simp_all add: leave_source_def)
    then show ?thesis using same v' n st by simp
  next
    case False
    then have v': "v' = ?v1"
        and net': "net' = upd_node ?t (enqueue_by_type ?v1)
              (upd_node ?t (\<lambda>nd. nd\<lparr>current_vehicles := current_vehicles nd + 1\<rparr>) ?n2)"
      using assms(3) by (auto simp add: perform_vehicle_move_with_display_def Let_def)
    have n: "\<forall>j<length (nodes net).
          nodes net' ! j = (nodes net ! j)
            \<lparr>current_vehicles :=
               current_vehicles (nodes net ! j)
                 - (if j = from_node \<and> 0 <s current_vehicles (nodes net ! from_node)
                    then 1 else 0)
                 + (if j = nat to_node \<and> to_node \<noteq> destination_node v then 1 else 0),
             waiting_queue :=
               (if j = nat to_node \<and> to_node \<noteq> destination_node v \<and> vtype v = REGULAR
                then waiting_queue (nodes net ! j) @ [v']
                else waiting_queue (nodes net ! j)),
             emergency_queue :=
               (if j = nat to_node \<and> to_node \<noteq> destination_node v \<and> vtype v \<noteq> REGULAR
                then pq_push v' (emergency_queue (nodes net ! j))
                else emergency_queue (nodes net ! j))\<rparr>"
    proof (intro allI impI)
      fix j
      assume j: "j < length (nodes net)"
      show "nodes net' ! j = (nodes net ! j)
            \<lparr>current_vehicles :=
               current_vehicles (nodes net ! j)
                 - (if j = from_node \<and> 0 <s current_vehicles (nodes net ! from_node)
                    then 1 else 0)
                 + (if j = nat to_node \<and> to_node \<noteq> destination_node v then 1 else 0),
             waiting_queue :=
               (if j = nat to_node \<and> to_node \<noteq> destination_node v \<and> vtype v = REGULAR
                then waiting_queue (nodes net ! j) @ [v']
                else waiting_queue (nodes net ! j)),
             emergency_queue :=
               (if j = nat to_node \<and> to_node \<noteq> destination_node v \<and> vtype v \<noteq> REGULAR
                then pq_push v' (emergency_queue (nodes net ! j))
                else emergency_queue (nodes net ! j))\<rparr>"
        using src [OF j] j False unfolding net' v'
        by (cases "j = ?t") (simp_all add: enqueue_by_type_def nth_list_update)
    qed
    have st: "stats net' = (stats net)
          \<lparr>total_vehicles_processed :=
             total_vehicles_processed (stats net)
               + (if to_node = destination_node v \<and> vtype v = REGULAR then 1 else 0),
           emergency_vehicles_processed :=
             emergency_vehicles_processed (stats net)
               + (if to_node = destination_node v \<and> vtype v \<noteq> REGULAR then 1 else 0),
           successful_routes :=
             successful_routes (stats net) + (if to_node = destination_node v then 1 else 0),
           total_moves := total_moves (stats net) + 1\<rparr>"
      using False unfolding net' by simp
    have "length (nodes net') = length (nodes net)" "next_vehicle_id net' = next_vehicle_id net"
      unfolding net' by (simp_all add: leave_source_def)
    then show ?thesis using same v' n st by simp
  qed
qed

theorem admitted_move_postcondition_witness:
  "perform_vehicle_move (Vehicle_init 1 REGULAR 0 1 0) 0 1 move_example
     = perform_vehicle_move_with_display (Vehicle_init 1 REGULAR 0 1 0) 0 1 move_example
   \<and> current_vehicles (nodes (snd (perform_vehicle_move_with_display
        (Vehicle_init 1 REGULAR 0 1 0) 0 1 move_example)) ! 0) = 0
   \<and> nodes (snd (perform_vehicle_move_with_display
        (Vehicle_init 1 REGULAR 0 1 0) 0 1 move_example)) ! 1 = nodes move_example ! 1
   \<and> stats (snd (perform_vehicle_move_with_display
        (Vehicle_init 1 REGULAR 0 1 0) 0 1 move_example))
       = SystemStats_init\<lparr>total_vehicles_processed := 1, successful_routes := 1,
           total_moves := 1\<rparr>
   \<and> perform_vehicle_move (Vehicle_init 5 REGULAR 0 2 1) 0 1 through_example
     = perform_vehicle_move_with_display (Vehicle_init 5 REGULAR 0 2 1) 0 1 through_example
   \<and> current_vehicles (nodes (snd (perform_vehicle_move_with_display
        (Vehicle_init 5 REGULAR 0 2 1) 0 1 through_example)) ! 0) = 0
   \<and> current_vehicles (nodes (snd (perform_vehicle_move_with_display
        (Vehicle_init 5 REGULAR 0 2 1) 0 1 through_example)) ! 1) = 2
   \<and> waiting_queue (nodes (snd (perform_vehicle_move_with_display
        (Vehicle_init 5 REGULAR 0 2 1) 0 1 through_example)) ! 1)
       = [(Vehicle_init 5 REGULAR 0 2 1)\<lparr>current_node := 1\<rparr>]
   \<and> emergency_queue (nodes (snd (perform_vehicle_move_with_display
        (Vehicle_init 5 REGULAR 0 2 1) 0 1 through_example)) ! 1)
       = [Vehicle_init 7 FIRE_TRUCK 1 2 3]
   \<and> stats (snd (perform_vehicle_move_with_display
        (Vehicle_init 5 REGULAR 0 2 1) 0 1 through_example))
       = SystemStats_init\<lparr>total_moves := 1\<rparr>
   \<and> perform_vehicle_move (Vehicle_init 6 AMBULANCE 0 2 4) 0 1 through_example
     = perform_vehicle_move_with_display (Vehicle_init 6 AMBULANCE 0 2 4) 0 1 through_example
   \<and> current_vehicles (nodes (snd (perform_vehicle_move_with_display
        (Vehicle_init 6 AMBULANCE 0 2 4) 0 1 through_example)) ! 0) = 0
   \<and> current_vehicles (nodes (snd (perform_vehicle_move_with_display
        (Vehicle_init 6 AMBULANCE 0 2 4) 0 1 through_example)) ! 1) = 2
   \<and> waiting_queue (nodes (snd (perform_vehicle_move_with_display
        (Vehicle_init 6 AMBULANCE 0 2 4) 0 1 through_example)) ! 1) = []
   \<and> emergency_queue (nodes (snd (perform_vehicle_move_with_display
        (Vehicle_init 6 AMBULANCE 0 2 4) 0 1 through_example)) ! 1)
       = [(Vehicle_init 6 AMBULANCE 0 2 4)\<lparr>current_node := 1\<rparr>,
          Vehicle_init 7 FIRE_TRUCK 1 2 3]
   \<and> stats (snd (perform_vehicle_move_with_display
        (Vehicle_init 6 AMBULANCE 0 2 4) 0 1 through_example))
       = SystemStats_init\<lparr>total_moves := 1\<rparr>"
proof -
  let ?r = "Vehicle_init 1 REGULAR 0 1 0"
  let ?s = "Vehicle_init 5 REGULAR 0 2 1"
  let ?a = "Vehicle_init 6 AMBULANCE 0 2 4"
  note ev = move_example_def through_example_def can_move_to_node_safe_def NodeData_init_def
    Vehicle_init_def SystemStats_init_def word_sless_alt
  obtain r' net1 where r: "perform_vehicle_move_with_display ?r 0 1 move_example = (r', net1)"
    by (cases "perform_vehicle_move_with_display ?r 0 1 move_example")
  obtain s' net2 where s: "perform_vehicle_move_with_display ?s 0 1 through_example = (s', net2)"
    by (cases "perform_vehicle_move_with_display ?s 0 1 through_example")
  obtain a' net3 where a: "perform_vehicle_move_with_display ?a 0 1 through_example = (a', net3)"
    by (cases "perform_vehicle_move_with_display ?a 0 1 through_example")
  have adm: "can_move_to_node_safe (nodes move_example) 1 (vtype ?r)"
      "can_move_to_node_safe (nodes through_example) 1 (vtype ?s)"
      "can_move_to_node_safe (nodes through_example) 1 (vtype ?a)"
    by (simp_all add: ev)
  have len: "0 < length (nodes move_example)" "0 < length (nodes through_example)"
    by (simp_all add: ev)
  note t1 = admitted_move_postcondition [OF adm(1) len(1) r]
  note t2 = admitted_move_postcondition [OF adm(2) len(2) s]
  note t3 = admitted_move_postcondition [OF adm(3) len(2) a]
  have n1: "nodes net1 ! 0 = (nodes move_example ! 0)\<lparr>current_vehicles := 0\<rparr>"
      "nodes net1 ! 1 = nodes move_example ! 1"
    using t1 by (simp_all add: ev)
  have s1: "stats net1 = SystemStats_init\<lparr>total_vehicles_processed := 1,
      successful_routes := 1, total_moves := 1\<rparr>"
    using t1 by (simp add: ev)
  have n2: "current_vehicles (nodes net2 ! 0) = 0" "current_vehicles (nodes net2 ! 1) = 2"
      "waiting_queue (nodes net2 ! 1) = [?s\<lparr>current_node := 1\<rparr>]"
      "emergency_queue (nodes net2 ! 1) = [Vehicle_init 7 FIRE_TRUCK 1 2 3]"
    using t2 by (simp_all add: ev)
  have s2: "stats net2 = SystemStats_init\<lparr>total_moves := 1\<rparr>"
    using t2 by (simp add: ev)
  have n3: "current_vehicles (nodes net3 ! 0) = 0" "current_vehicles (nodes net3 ! 1) = 2"
      "waiting_queue (nodes net3 ! 1) = []"
      "emergency_queue (nodes net3 ! 1) = [?a\<lparr>current_node := 1\<rparr>,
          Vehicle_init 7 FIRE_TRUCK 1 2 3]"
    using t3 by (simp_all add: ev pq_push_def push_heap_def push_heap_hole.simps
        vehicle_less_def Let_def)
  have s3: "stats net3 = SystemStats_init\<lparr>total_moves := 1\<rparr>"
    using t3 by (simp add: ev)
  have m: "perform_vehicle_move ?r 0 1 move_example = (r', net1)"
      "perform_vehicle_move ?s 0 1 through_example = (s', net2)"
      "perform_vehicle_move ?a 0 1 through_example = (a', net3)"
    using t1 t2 t3 by simp_all
  show ?thesis
    unfolding m r s a snd_conv using n1 s1 n2 s2 n3 s3 by simp
qed

section \<open>Blocked attempts\<close>

text \<open>
  When the admission is denied, \<^verbatim>\<open>process_vehicle\<close> pushes its vehicle into the queue
  first and increments \<^verbatim>\<open>blocked_attempts\<close> of its own copy afterwards: the queue gets
  the vehicle as it was taken out.
\<close>

lemma process_vehicle_denied:
  assumes "find_best_next_hop (nodes net) from_node (destination_node v) \<noteq> - 1"
    and "\<not> can_move_to_node_safe (nodes net)
            (find_best_next_hop (nodes net) from_node (destination_node v)) (vtype v)"
  shows "nodes (snd (process_vehicle v from_node is_emergency net))
           = nodes (return_vehicle_to_queue v from_node is_emergency net)
       \<and> rerouting_attempts (stats (snd (process_vehicle v from_node is_emergency net)))
           = (if 5 <s blocked_attempts v + 1 then rerouting_attempts (stats net) + 1
              else rerouting_attempts (stats net))"
  using assms
  by (simp add: process_vehicle_def attempt_rerouting_def return_vehicle_to_queue_def Let_def)

definition blocked_example :: TrafficNetwork where
  "blocked_example =
     \<lparr>nodes = [(NodeData_init 0 CHR ''A'' WAIT_NODE 5)
                  \<lparr>current_vehicles := 1,
                   waiting_queue := [Vehicle_init 1 REGULAR 0 1 0],
                   adjacent_nodes := [1]\<rparr>,
               (NodeData_init 1 CHR ''B'' WAIT_NODE 1)\<lparr>current_vehicles := 1\<rparr>],
      stats = SystemStats_init, next_vehicle_id = 2\<rparr>"

lemma blocked_example_hop:
  "find_best_next_hop (nodes blocked_example) 0 1 = 1"
  by (simp add: find_best_next_hop_def find_best_next_hop_run_def blocked_example_def
      NodeData_init_def)

lemma blocked_example_denied:
  "\<not> can_move_to_node_safe (nodes blocked_example) 1 REGULAR"
  by (simp add: can_move_to_node_safe_def blocked_example_def NodeData_init_def word_sless_alt)

lemma blocked_example_sweep:
  "process_node_vehicles 0 blocked_example = blocked_example"
proof -
  let ?v = "Vehicle_init 1 REGULAR 0 1 0"
  let ?net1 = "upd_node 0 (\<lambda>nd. nd\<lparr>waiting_queue := tl (waiting_queue nd)\<rparr>) blocked_example"
  have n1: "nodes ?net1 = [(NodeData_init 0 CHR ''A'' WAIT_NODE 5)
                  \<lparr>current_vehicles := 1, waiting_queue := [], adjacent_nodes := [1]\<rparr>,
               (NodeData_init 1 CHR ''B'' WAIT_NODE 1)\<lparr>current_vehicles := 1\<rparr>]"
    by (simp add: blocked_example_def NodeData_init_def)
  have hop: "find_best_next_hop (nodes ?net1) 0 (destination_node ?v) = 1"
    unfolding n1
    by (simp add: find_best_next_hop_def find_best_next_hop_run_def NodeData_init_def
        Vehicle_init_def)
  have den: "\<not> can_move_to_node_safe (nodes ?net1) 1 (vtype ?v)"
    unfolding n1
    by (simp add: can_move_to_node_safe_def NodeData_init_def Vehicle_init_def word_sless_alt)
  have cnt: "\<not> 5 <s blocked_attempts ?v + 1"
    by (simp add: Vehicle_init_def word_sless_alt)
  have "snd (process_vehicle ?v 0 False ?net1) = return_vehicle_to_queue ?v 0 False ?net1"
    using hop den cnt by (simp add: process_vehicle_def Let_def)
  also have "\<dots> = blocked_example"
    by (simp add: return_vehicle_to_queue_def upd_node_def blocked_example_def NodeData_init_def)
  finally have "snd (process_vehicle ?v 0 False ?net1) = blocked_example" .
  moreover have "process_node_vehicles 0 blocked_example = snd (process_vehicle ?v 0 False ?net1)"
    by (simp add: process_node_vehicles_def has_emergency_vehicles_def Let_def
        blocked_example_def NodeData_init_def)
  ultimately show ?thesis by simp
qed

lemma blocked_example_step:
  "process_single_vehicle_movement 0 blocked_example = (False, blocked_example)"
proof -
  let ?v = "Vehicle_init 1 REGULAR 0 1 0"
  let ?net1 = "upd_node 0 (\<lambda>nd. nd\<lparr>waiting_queue := tl (waiting_queue nd)\<rparr>) blocked_example"
  have n1: "nodes ?net1 = [(NodeData_init 0 CHR ''A'' WAIT_NODE 5)
                  \<lparr>current_vehicles := 1, waiting_queue := [], adjacent_nodes := [1]\<rparr>,
               (NodeData_init 1 CHR ''B'' WAIT_NODE 1)\<lparr>current_vehicles := 1\<rparr>]"
    by (simp add: blocked_example_def NodeData_init_def)
  have hop: "find_best_next_hop (nodes ?net1) 0 (destination_node ?v) = 1"
    unfolding n1
    by (simp add: find_best_next_hop_def find_best_next_hop_run_def NodeData_init_def
        Vehicle_init_def)
  have den: "\<not> can_move_to_node_safe (nodes ?net1) 1 (vtype ?v)"
    unfolding n1
    by (simp add: can_move_to_node_safe_def NodeData_init_def Vehicle_init_def word_sless_alt)
  have "process_vehicle_step_by_step ?v 0 False ?net1
      = (False, ?v\<lparr>blocked_attempts := blocked_attempts ?v + 1\<rparr>,
         return_vehicle_to_queue ?v 0 False ?net1)"
    using hop den by (simp add: process_vehicle_step_by_step_def Let_def)
  moreover have "return_vehicle_to_queue ?v 0 False ?net1 = blocked_example"
    by (simp add: return_vehicle_to_queue_def upd_node_def blocked_example_def NodeData_init_def)
  moreover have "process_single_vehicle_movement 0 blocked_example
      = (case process_vehicle_step_by_step ?v 0 False ?net1 of
           (moved, vehicle', net') \<Rightarrow> (moved, net'))"
    by (simp add: process_single_vehicle_movement_def has_emergency_vehicles_def Let_def
        blocked_example_def NodeData_init_def)
  ultimately show ?thesis by simp
qed

text \<open>
  C3 (the code departs from the claim). A Regular vehicle at node 0 whose next hop, node
  1, is full. Six sweeps of node 0 in automatic mode deny it six times and leave the
  network as it was: the queued vehicle still carries 0 blocked attempts and the
  rerouting statistic is still 0. A step in step-by-step mode does the same.
\<close>

theorem blocked_attempts_not_escalated:
  "find_best_next_hop (nodes blocked_example) 0 1 = 1
   \<and> \<not> can_move_to_node_safe (nodes blocked_example) 1 REGULAR
   \<and> (process_node_vehicles 0 ^^ 6) blocked_example = blocked_example
   \<and> process_single_vehicle_movement 0 blocked_example = (False, blocked_example)
   \<and> map blocked_attempts (waiting_queue (nodes blocked_example ! 0)) = [0]
   \<and> rerouting_attempts (stats blocked_example) = 0"
proof -
  have "(process_node_vehicles 0 ^^ 6) blocked_example = blocked_example"
    by (simp add: eval_nat_numeral blocked_example_sweep)
  moreover have "map blocked_attempts (waiting_queue (nodes blocked_example ! 0)) = [0]"
      "rerouting_attempts (stats blocked_example) = 0"
    by (simp_all add: blocked_example_def NodeData_init_def Vehicle_init_def SystemStats_init_def)
  ultimately show ?thesis
    using blocked_example_hop blocked_example_denied blocked_example_step by simp
qed

section \<open>One step of the step-by-step mode\<close>

declare step_loop.simps [simp del]

lemma return_vehicle_to_queue_stats [simp]:
  "stats (return_vehicle_to_queue v i e net) = stats net"
  by (simp add: return_vehicle_to_queue_def)




text \<open>
  Serving node \<open>j\<close> during a scan, the network after the scan has passed the nodes below
  \<open>k\<close>, and whether the attempt made at node \<open>j\<close> moved a vehicle.
\<close>

definition serve_node :: "nat \<Rightarrow> TrafficNetwork \<Rightarrow> TrafficNetwork" where
  "serve_node j net =
     (if get_queue_size (nodes net ! j) > 0 then snd (process_single_vehicle_movement j net)
      else net)"

definition scanned :: "nat \<Rightarrow> TrafficNetwork \<Rightarrow> TrafficNetwork" where
  "scanned k net = fold serve_node [0..<k] net"


lemma scanned_0 [simp]: "scanned 0 net = net"
  by (simp add: scanned_def)

lemma scanned_Suc: "scanned (Suc k) net = serve_node k (scanned k net)"
  by (simp add: scanned_def)

lemma length_nodes_serve [simp]: "length (nodes (serve_node j net)) = length (nodes net)"
  by (simp add: serve_node_def)

lemma length_nodes_scanned [simp]: "length (nodes (scanned k net)) = length (nodes net)"
  by (induction k) (simp_all add: scanned_Suc)

lemma step_loop_done:
  "\<not> (i < length (nodes s) \<and> \<not> m) \<Longrightarrow> step_loop i m s = (m, s)"
  by (subst step_loop.simps) auto

lemma step_loop_skip:
  "i < length (nodes s) \<Longrightarrow> \<not> get_queue_size (nodes s ! i) > 0 \<Longrightarrow>
     step_loop i False s = step_loop (Suc i) False s"
  by (subst step_loop.simps) simp

lemma step_loop_serve:
  "i < length (nodes s) \<Longrightarrow> get_queue_size (nodes s ! i) > 0 \<Longrightarrow>
     process_single_vehicle_movement i s = (m, s1) \<Longrightarrow>
     step_loop i False s = step_loop (Suc i) m s1"
  by (subst step_loop.simps) simp





definition scan_example :: TrafficNetwork where
  "scan_example =
     \<lparr>nodes = [(NodeData_init 0 CHR ''A'' WAIT_NODE 5)
                  \<lparr>current_vehicles := 1, waiting_queue := [Vehicle_init 1 REGULAR 0 1 0]\<rparr>,
               (NodeData_init 1 CHR ''B'' WAIT_NODE 5)
                  \<lparr>current_vehicles := 1, waiting_queue := [Vehicle_init 2 REGULAR 1 0 0],
                   adjacent_nodes := [0]\<rparr>],
      stats = SystemStats_init, next_vehicle_id = 3\<rparr>"

definition scan_example_after :: TrafficNetwork where
  "scan_example_after =
     \<lparr>nodes = [(NodeData_init 0 CHR ''A'' WAIT_NODE 5)
                  \<lparr>current_vehicles := 1, waiting_queue := [Vehicle_init 1 REGULAR 0 1 0]\<rparr>,
               (NodeData_init 1 CHR ''B'' WAIT_NODE 5)
                  \<lparr>current_vehicles := 0, waiting_queue := [], adjacent_nodes := [0]\<rparr>],
      stats = SystemStats_init\<lparr>total_vehicles_processed := 1, successful_routes := 1,
                total_moves := 1\<rparr>,
      next_vehicle_id = 3\<rparr>"

lemma scan_example_node0:
  "process_single_vehicle_movement 0 scan_example = (False, scan_example)"
proof -
  let ?v = "Vehicle_init 1 REGULAR 0 1 0"
  let ?net1 = "upd_node 0 (\<lambda>nd. nd\<lparr>waiting_queue := tl (waiting_queue nd)\<rparr>) scan_example"
  have hop: "find_best_next_hop (nodes ?net1) 0 (destination_node ?v) = - 1"
    by (simp add: find_best_next_hop_def find_best_next_hop_run_def scan_example_def
        NodeData_init_def)
  have "process_vehicle_step_by_step ?v 0 False ?net1
      = (False, ?v, return_vehicle_to_queue ?v 0 False ?net1)"
    using hop by (simp add: process_vehicle_step_by_step_def Let_def)
  moreover have "return_vehicle_to_queue ?v 0 False ?net1 = scan_example"
    by (simp add: return_vehicle_to_queue_def upd_node_def scan_example_def NodeData_init_def)
  moreover have "process_single_vehicle_movement 0 scan_example
      = (case process_vehicle_step_by_step ?v 0 False ?net1 of
           (moved, vehicle', net') \<Rightarrow> (moved, net'))"
    by (simp add: process_single_vehicle_movement_def has_emergency_vehicles_def Let_def
        scan_example_def NodeData_init_def)
  ultimately show ?thesis by simp
qed

lemma scan_example_node1:
  "process_single_vehicle_movement 1 scan_example = (True, scan_example_after)"
proof -
  let ?v = "Vehicle_init 2 REGULAR 1 0 0"
  let ?net1 = "upd_node 1 (\<lambda>nd. nd\<lparr>waiting_queue := tl (waiting_queue nd)\<rparr>) scan_example"
  have n1: "nodes ?net1 = [(NodeData_init 0 CHR ''A'' WAIT_NODE 5)
                  \<lparr>current_vehicles := 1, waiting_queue := [Vehicle_init 1 REGULAR 0 1 0]\<rparr>,
               (NodeData_init 1 CHR ''B'' WAIT_NODE 5)
                  \<lparr>current_vehicles := 1, waiting_queue := [], adjacent_nodes := [0]\<rparr>]"
    by (simp add: scan_example_def NodeData_init_def)
  have hop: "find_best_next_hop (nodes ?net1) 1 (destination_node ?v) = 0"
    unfolding n1
    by (simp add: find_best_next_hop_def find_best_next_hop_run_def NodeData_init_def
        Vehicle_init_def)
  have adm: "can_move_to_node_safe (nodes ?net1) 0 (vtype ?v)"
    unfolding n1
    by (simp add: can_move_to_node_safe_def NodeData_init_def Vehicle_init_def word_sless_alt)
  have mv: "snd (perform_vehicle_move_with_display ?v 1 0 ?net1) = scan_example_after"
    by (simp add: perform_vehicle_move_with_display_def leave_source_def record_arrival_def
        upd_node_def upd_stats_def Let_def scan_example_def scan_example_after_def
        NodeData_init_def Vehicle_init_def SystemStats_init_def word_sless_alt)
  have "process_vehicle_step_by_step ?v 1 False ?net1
      = (True, perform_vehicle_move_with_display ?v 1 0 ?net1)"
    using hop adm by (simp add: process_vehicle_step_by_step_def Let_def split: prod.splits)
  moreover have "process_single_vehicle_movement 1 scan_example
      = (case process_vehicle_step_by_step ?v 1 False ?net1 of
           (moved, vehicle', net') \<Rightarrow> (moved, net'))"
    by (simp add: process_single_vehicle_movement_def has_emergency_vehicles_def Let_def
        scan_example_def NodeData_init_def)
  ultimately show ?thesis using mv by (simp split: prod.splits)
qed

lemma scan_example_step:
  "execute_single_step scan_example = (True, scan_example_after)"
proof -
  have q0: "get_queue_size (nodes scan_example ! 0) > 0"
    and q1: "get_queue_size (nodes scan_example ! 1) > 0"
    and l: "length (nodes scan_example) = 2"
    by (simp_all add: scan_example_def get_queue_size_def NodeData_init_def)
  have "step_loop 0 False scan_example = step_loop (Suc 0) False scan_example"
    using step_loop_serve [OF _ q0 scan_example_node0] l by simp
  also have "\<dots> = step_loop (Suc (Suc 0)) True scan_example_after"
    using step_loop_serve [of "Suc 0" scan_example True scan_example_after]
      q1 scan_example_node1 l by simp
  also have "\<dots> = (True, scan_example_after)"
    by (simp add: step_loop_done)
  finally show ?thesis by (simp add: execute_single_step_def)
qed




section \<open>Occupancy and queue sizes along a move\<close>

lemma get_queue_size_enqueue:
  "get_queue_size (enqueue_by_type v nd) = Suc (get_queue_size nd)"
  by (simp add: enqueue_by_type_def get_queue_size_def)

lemma current_vehicles_enqueue [simp]:
  "current_vehicles (enqueue_by_type v nd) = current_vehicles nd"
  by (simp add: enqueue_by_type_def)

lemma capacity_enqueue [simp]: "capacity (enqueue_by_type v nd) = capacity nd"
  by (simp add: enqueue_by_type_def)

lemma admitted_below_max:
  assumes "can_move_to_node_safe ns t ty"
  shows "0 \<le> t \<and> nat t < length ns
       \<and> sint (current_vehicles (ns ! nat t)) < 2147483647
       \<and> (ty = REGULAR \<longrightarrow>
            sint (current_vehicles (ns ! nat t)) < sint (capacity (ns ! nat t)))
       \<and> sint (current_vehicles (ns ! nat t)) < sint (capacity (ns ! nat t)) + 1"
proof -
  let ?c = "capacity (ns ! nat t)"
  let ?o = "current_vehicles (ns ! nat t)"
  let ?m = "if ty \<noteq> REGULAR then ?c + 1 else ?c"
  have rng: "0 \<le> t" "nat t < length ns"
    using assms by (auto simp: can_move_to_node_safe_def split: if_splits)
  have lt: "sint ?o < sint ?m"
    using assms by (auto simp: can_move_to_node_safe_def Let_def word_sless_alt split: if_splits)
  have b: "sint ?o < 2147483647"
    using lt sint32_upper [of ?m] by linarith
  have r: "ty = REGULAR \<longrightarrow> sint ?o < sint ?c"
    using lt by auto
  have e: "sint ?o < sint ?c + 1"
  proof (cases "ty = REGULAR")
    case True
    then show ?thesis using lt by simp
  next
    case False
    show ?thesis
    proof (cases "sint ?c < 2147483647")
      case True
      then show ?thesis using lt False sint32_inc [of ?c] by simp
    next
      case False
      then have "sint ?c = 2147483647" using sint32_upper [of ?c] by linarith
      then show ?thesis using sint32_upper [of ?o] by linarith
    qed
  qed
  from rng b r e show ?thesis by simp
qed

lemma leave_source_sint:
  "j < length (nodes net) \<Longrightarrow>
     sint (current_vehicles (nodes (leave_source i net) ! j)) =
       sint (current_vehicles (nodes net ! j))
         - (if j = i \<and> 0 < sint (current_vehicles (nodes net ! i)) then 1 else 0)"
proof -
  assume j: "j < length (nodes net)"
  show ?thesis
  proof (cases "j = i \<and> 0 <s current_vehicles (nodes net ! i)")
    case True
    then have p: "0 < sint (current_vehicles (nodes net ! i))"
      by (simp add: word_sless_alt)
    then have "sint (current_vehicles (nodes net ! i) - 1)
        = sint (current_vehicles (nodes net ! i)) - 1"
      using sint32_dec [of "current_vehicles (nodes net ! i)"] by simp
    then show ?thesis
      using True p j leave_source_occupancy [OF j, of i] by simp
  next
    case False
    then show ?thesis
      using j leave_source_occupancy [OF j, of i] by (auto simp: word_sless_alt)
  qed
qed

text \<open>
  The effect of an admitted move on every node \<open>j\<close>: the source loses one unit of
  occupancy (if it had any), and unless the trip completes the candidate gains one unit
  of occupancy and one queued vehicle.
\<close>

lemma admitted_move_effect:
  assumes adm: "can_move_to_node_safe (nodes net) t (vtype v)"
    and j: "j < length (nodes net)"
  shows "sint (current_vehicles (nodes (snd (perform_vehicle_move_with_display v i t net)) ! j))
           = sint (current_vehicles (nodes net ! j))
             - (if j = i \<and> 0 < sint (current_vehicles (nodes net ! i)) then 1 else 0)
             + (if j = nat t \<and> t \<noteq> destination_node v then 1 else 0)"
    and "get_queue_size (nodes (snd (perform_vehicle_move_with_display v i t net)) ! j)
           = get_queue_size (nodes net ! j)
             + (if j = nat t \<and> t \<noteq> destination_node v then 1 else 0)"
    and "capacity (nodes (snd (perform_vehicle_move_with_display v i t net)) ! j)
           = capacity (nodes net ! j)"
proof -
  let ?L = "leave_source i net"
  let ?T = "nat t"
  have rng: "?T < length (nodes net)"
    and bnd: "sint (current_vehicles (nodes net ! ?T)) < 2147483647"
    using admitted_below_max [OF adm] by simp_all
  have lj: "sint (current_vehicles (nodes ?L ! j)) = sint (current_vehicles (nodes net ! j))
         - (if j = i \<and> 0 < sint (current_vehicles (nodes net ! i)) then 1 else 0)"
    by (rule leave_source_sint [OF j])
  have lt: "sint (current_vehicles (nodes ?L ! ?T)) \<le> sint (current_vehicles (nodes net ! ?T))"
    using leave_source_sint [OF rng, of i] by simp
  then have inc: "sint (current_vehicles (nodes ?L ! ?T) + 1)
      = sint (current_vehicles (nodes ?L ! ?T)) + 1"
    using bnd sint32_inc [of "current_vehicles (nodes ?L ! ?T)"] by simp
  have qj: "get_queue_size (nodes ?L ! j) = get_queue_size (nodes net ! j)"
      "capacity (nodes ?L ! j) = capacity (nodes net ! j)"
    using leave_source_queues [OF j, of i] by (simp_all add: get_queue_size_def)
  have len: "length (nodes ?L) = length (nodes net)" by simp
  let ?N = "snd (perform_vehicle_move_with_display v i t net)"
  let ?A = "j = ?T \<and> t \<noteq> destination_node v"
  have nd: "nodes ?N ! j =
      (if ?A then enqueue_by_type (v\<lparr>current_node := t\<rparr>)
                    ((nodes ?L ! ?T)\<lparr>current_vehicles := current_vehicles (nodes ?L ! ?T) + 1\<rparr>)
       else nodes ?L ! j)"
    using j rng len
    by (cases "t = destination_node v"; cases "j = ?T")
       (simp_all add: perform_vehicle_move_with_display_def Let_def)
  have "sint (current_vehicles (nodes ?N ! j))
      = sint (current_vehicles (nodes ?L ! j)) + (if ?A then 1 else 0)"
  proof (cases ?A)
    case True
    then show ?thesis using nd inc by simp
  next
    case False
    then show ?thesis using nd by auto
  qed
  with lj show "sint (current_vehicles (nodes ?N ! j))
           = sint (current_vehicles (nodes net ! j))
             - (if j = i \<and> 0 < sint (current_vehicles (nodes net ! i)) then 1 else 0)
             + (if j = nat t \<and> t \<noteq> destination_node v then 1 else 0)"
    by linarith
  have "get_queue_size (nodes ?N ! j) = get_queue_size (nodes ?L ! j) + (if ?A then 1 else 0)"
  proof (cases ?A)
    case True
    then show ?thesis
      using nd by (simp add: get_queue_size_enqueue) (simp add: get_queue_size_def)
  next
    case False
    then show ?thesis using nd by auto
  qed
  with qj show "get_queue_size (nodes ?N ! j)
           = get_queue_size (nodes net ! j)
             + (if j = nat t \<and> t \<noteq> destination_node v then 1 else 0)"
    by simp
  show "capacity (nodes ?N ! j) = capacity (nodes net ! j)"
  proof (cases ?A)
    case True
    then show ?thesis
      using nd qj leave_source_queues [OF rng, of i] by simp
  next
    case False
    then show ?thesis using nd qj by auto
  qed
qed

lemma admitted_move_successful_routes:
  "successful_routes (stats (snd (perform_vehicle_move_with_display v i t net)))
     = successful_routes (stats net) + (if t = destination_node v then 1 else 0)"
  by (simp add: perform_vehicle_move_with_display_def record_arrival_def Let_def)

lemma admitted_move_next_vehicle_id [simp]:
  "next_vehicle_id (snd (perform_vehicle_move_with_display v i t net)) = next_vehicle_id net"
  by (simp add: perform_vehicle_move_with_display_def leave_source_def Let_def)

lemma return_vehicle_to_queue_effect:
  assumes "j < length (nodes net)"
  shows "current_vehicles (nodes (return_vehicle_to_queue v i e net) ! j)
           = current_vehicles (nodes net ! j)"
    and "capacity (nodes (return_vehicle_to_queue v i e net) ! j) = capacity (nodes net ! j)"
    and "get_queue_size (nodes (return_vehicle_to_queue v i e net) ! j)
           = get_queue_size (nodes net ! j) + (if j = i then 1 else 0)"
  using assms
  by (cases "j = i"; simp add: return_vehicle_to_queue_def get_queue_size_def)+

lemma return_vehicle_to_queue_next_vehicle_id [simp]:
  "next_vehicle_id (return_vehicle_to_queue v i e net) = next_vehicle_id net"
  by (simp add: return_vehicle_to_queue_def)

text \<open>
  The next hop computed for a vehicle taken out at node \<open>i\<close>, and whether the vehicle
  is moved (a hop exists and the admission is allowed).
\<close>

definition hop_of :: "TrafficNetwork \<Rightarrow> nat \<Rightarrow> Vehicle \<Rightarrow> int" where
  "hop_of net i v = find_best_next_hop (nodes net) i (destination_node v)"

definition is_moved :: "TrafficNetwork \<Rightarrow> nat \<Rightarrow> Vehicle \<Rightarrow> bool" where
  "is_moved net i v =
     (hop_of net i v \<noteq> - 1 \<and> can_move_to_node_safe (nodes net) (hop_of net i v) (vtype v))"

text \<open>
  What processing the vehicle \<open>v\<close>, already taken out of its queue at node \<open>i\<close>, does to
  the occupancies, queue sizes, capacities and the completion counter.
\<close>

definition vehicle_effect ::
  "nat \<Rightarrow> Vehicle \<Rightarrow> TrafficNetwork \<Rightarrow> TrafficNetwork \<Rightarrow> bool" where
  "vehicle_effect i v net net' =
     (length (nodes net') = length (nodes net)
      \<and> next_vehicle_id net' = next_vehicle_id net
      \<and> successful_routes (stats net') =
          successful_routes (stats net)
            + (if is_moved net i v \<and> hop_of net i v = destination_node v then 1 else 0)
      \<and> (\<forall>j<length (nodes net).
            capacity (nodes net' ! j) = capacity (nodes net ! j)
          \<and> sint (current_vehicles (nodes net' ! j)) =
              sint (current_vehicles (nodes net ! j))
                - (if is_moved net i v \<and> j = i \<and> 0 < sint (current_vehicles (nodes net ! i))
                   then 1 else 0)
                + (if is_moved net i v \<and> j = nat (hop_of net i v)
                      \<and> hop_of net i v \<noteq> destination_node v
                   then 1 else 0)
          \<and> get_queue_size (nodes net' ! j) =
              get_queue_size (nodes net ! j)
                + (if \<not> is_moved net i v \<and> j = i then 1 else 0)
                + (if is_moved net i v \<and> j = nat (hop_of net i v)
                      \<and> hop_of net i v \<noteq> destination_node v
                   then 1 else 0)))"

lemma vehicle_effect_moved:
  assumes "is_moved net i v"
  shows "vehicle_effect i v net
           (snd (perform_vehicle_move_with_display v i (hop_of net i v) net))"
proof -
  have adm: "can_move_to_node_safe (nodes net) (hop_of net i v) (vtype v)"
    using assms by (simp add: is_moved_def)
  show ?thesis
    unfolding vehicle_effect_def
    using assms admitted_move_effect [OF adm, of _ i]
      admitted_move_successful_routes [of v i "hop_of net i v" net]
    by simp
qed

lemma vehicle_effect_requeued:
  assumes "\<not> is_moved net i v" and "nodes net' = nodes (return_vehicle_to_queue v i e net)"
    and "successful_routes (stats net') = successful_routes (stats net)"
    and "next_vehicle_id net' = next_vehicle_id net"
  shows "vehicle_effect i v net net'"
  unfolding vehicle_effect_def
  using assms return_vehicle_to_queue_effect [of _ net v i e]
  by simp

lemma process_vehicle_step_by_step_effect:
  "fst (process_vehicle_step_by_step v i e net) = is_moved net i v
   \<and> vehicle_effect i v net (snd (snd (process_vehicle_step_by_step v i e net)))"
proof (cases "is_moved net i v")
  case True
  then have "process_vehicle_step_by_step v i e net
      = (True, perform_vehicle_move_with_display v i (hop_of net i v) net)"
    by (simp add: process_vehicle_step_by_step_def is_moved_def hop_of_def split: prod.splits)
  then show ?thesis
    using True vehicle_effect_moved [OF True] by simp
next
  case False
  then have "fst (process_vehicle_step_by_step v i e net) = False
      \<and> snd (snd (process_vehicle_step_by_step v i e net)) = return_vehicle_to_queue v i e net"
    by (auto simp: process_vehicle_step_by_step_def is_moved_def hop_of_def Let_def)
  then show ?thesis
    using False vehicle_effect_requeued [OF False, of _ e] by simp
qed

lemma process_vehicle_effect:
  "vehicle_effect i v net (snd (process_vehicle v i e net))"
proof (cases "is_moved net i v")
  case True
  then have adm: "can_move_to_node_safe (nodes net) (hop_of net i v) (vtype v)"
    by (simp add: is_moved_def)
  have "process_vehicle v i e net = perform_vehicle_move v i (hop_of net i v) net"
    using True by (simp add: process_vehicle_def is_moved_def hop_of_def)
  then show ?thesis
    using perform_vehicle_move_admitted [OF adm, of i] vehicle_effect_moved [OF True] by simp
next
  case False
  let ?n = "snd (process_vehicle v i e net)"
  have "nodes ?n = nodes (return_vehicle_to_queue v i e net)
      \<and> successful_routes (stats ?n) = successful_routes (stats net)
      \<and> next_vehicle_id ?n = next_vehicle_id net"
    using False
    by (auto simp: process_vehicle_def is_moved_def hop_of_def Let_def attempt_rerouting_def)
  then show ?thesis
    using vehicle_effect_requeued [OF False, of ?n e] by simp
qed

section \<open>The occupancy limit\<close>

definition within_limit :: "TrafficNetwork \<Rightarrow> bool" where
  "within_limit net =
     list_all (\<lambda>nd. sint (current_vehicles nd) \<le> sint (capacity nd) + 1) (nodes net)"

text \<open>The operations a single thread of the engine runs, and a run of them.\<close>

datatype engine_op = Single_Step | Serve_Node nat | Sweep | Sweep_Node nat

definition apply_op :: "engine_op \<Rightarrow> TrafficNetwork \<Rightarrow> TrafficNetwork" where
  "apply_op e net =
     (case e of
        Single_Step \<Rightarrow> snd (execute_single_step net)
      | Serve_Node i \<Rightarrow> snd (process_single_vehicle_movement i net)
      | Sweep \<Rightarrow> sweep_loop 0 net
      | Sweep_Node i \<Rightarrow> process_node_vehicles i net)"

lemma within_limit_nth:
  "within_limit net = (\<forall>j<length (nodes net).
      sint (current_vehicles (nodes net ! j)) \<le> sint (capacity (nodes net ! j)) + 1)"
  by (simp add: within_limit_def list_all_length)

lemma vehicle_effect_occupancy:
  "vehicle_effect i v net net' \<Longrightarrow> j < length (nodes net) \<Longrightarrow>
     sint (current_vehicles (nodes net' ! j)) =
       sint (current_vehicles (nodes net ! j))
         - (if is_moved net i v \<and> j = i \<and> 0 < sint (current_vehicles (nodes net ! i))
            then 1 else 0)
         + (if is_moved net i v \<and> j = nat (hop_of net i v)
               \<and> hop_of net i v \<noteq> destination_node v
            then 1 else 0)"
  unfolding vehicle_effect_def by blast

lemma vehicle_effect_queue_size:
  "vehicle_effect i v net net' \<Longrightarrow> j < length (nodes net) \<Longrightarrow>
     get_queue_size (nodes net' ! j) =
       get_queue_size (nodes net ! j)
         + (if \<not> is_moved net i v \<and> j = i then 1 else 0)
         + (if is_moved net i v \<and> j = nat (hop_of net i v)
               \<and> hop_of net i v \<noteq> destination_node v
            then 1 else 0)"
  unfolding vehicle_effect_def by blast

lemma vehicle_effect_capacity:
  "vehicle_effect i v net net' \<Longrightarrow> j < length (nodes net) \<Longrightarrow>
     capacity (nodes net' ! j) = capacity (nodes net ! j)"
  unfolding vehicle_effect_def by blast

lemma vehicle_effect_length:
  "vehicle_effect i v net net' \<Longrightarrow> length (nodes net') = length (nodes net)"
  unfolding vehicle_effect_def by blast

lemma vehicle_effect_bound:
  assumes eff: "vehicle_effect i v net net'" and j: "j < length (nodes net)"
  shows "sint (current_vehicles (nodes net' ! j)) \<le> sint (current_vehicles (nodes net ! j))
       \<or> sint (current_vehicles (nodes net' ! j))
            \<le> sint (capacity (nodes net ! j)) + (if vtype v = REGULAR then 0 else 1)"
proof -
  let ?a = "sint (current_vehicles (nodes net ! j))"
  let ?a' = "sint (current_vehicles (nodes net' ! j))"
  let ?D = "if is_moved net i v \<and> j = i \<and> 0 < sint (current_vehicles (nodes net ! i))
            then 1 else (0::int)"
  let ?A = "if is_moved net i v \<and> j = nat (hop_of net i v)
               \<and> hop_of net i v \<noteq> destination_node v
            then 1 else (0::int)"
  have eq: "?a' = ?a - ?D + ?A"
    by (rule vehicle_effect_occupancy [OF eff j])
  have D: "0 \<le> ?D" by simp
  show ?thesis
  proof (cases "is_moved net i v \<and> j = nat (hop_of net i v)")
    case True
    then have adm: "can_move_to_node_safe (nodes net) (hop_of net i v) (vtype v)"
      by (simp add: is_moved_def)
    have A: "?A \<le> 1" by simp
    have le: "?a' \<le> ?a + 1" using eq D A by linarith
    have b1: "sint (current_vehicles (nodes net ! j)) < sint (capacity (nodes net ! j)) + 1"
      and b2: "vtype v = REGULAR \<longrightarrow>
          sint (current_vehicles (nodes net ! j)) < sint (capacity (nodes net ! j))"
      using admitted_below_max [OF adm] True by simp_all
    show ?thesis
    proof (cases "vtype v = REGULAR")
      case r: True
      then have "?a' \<le> sint (capacity (nodes net ! j))" using le b2 by linarith
      then show ?thesis using r by simp
    next
      case r: False
      have "?a' \<le> sint (capacity (nodes net ! j)) + 1" using le b1 by linarith
      then show ?thesis using r by simp
    qed
  next
    case False
    then have "?A = 0" by auto
    then have "?a' \<le> ?a" using eq D by linarith
    then show ?thesis by simp
  qed
qed

lemma vehicle_effect_within_limit:
  assumes "vehicle_effect i v net net'" and "within_limit net"
  shows "within_limit net'"
proof -
  have len: "length (nodes net') = length (nodes net)"
    using assms(1) by (rule vehicle_effect_length)
  have "sint (current_vehicles (nodes net' ! j)) \<le> sint (capacity (nodes net' ! j)) + 1"
    if j: "j < length (nodes net)" for j
  proof -
    have c: "capacity (nodes net' ! j) = capacity (nodes net ! j)"
      using assms(1) j by (rule vehicle_effect_capacity)
    have w: "sint (current_vehicles (nodes net ! j)) \<le> sint (capacity (nodes net ! j)) + 1"
      using assms(2) j by (simp add: within_limit_nth)
    have "(if vtype v = REGULAR then 0 else 1) \<le> (1::int)" by simp
    then show ?thesis
      using vehicle_effect_bound [OF assms(1) j] w unfolding c by linarith
  qed
  then show ?thesis using len by (simp add: within_limit_nth)
qed

text \<open>Taking the next vehicle out of node \<open>i\<close> leaves occupancies and capacities.\<close>

lemma next_dispatched_fields:
  "next_dispatched nd = Some (v, e, nd') \<Longrightarrow>
     current_vehicles nd' = current_vehicles nd \<and> capacity nd' = capacity nd
     \<and> Suc (get_queue_size nd') = get_queue_size nd"
  using length_pq_pop [of "emergency_queue nd"]
  by (cases "waiting_queue nd")
     (auto simp: next_dispatched_def has_emergency_vehicles_def get_queue_size_def
        split: if_splits)

lemma next_dispatched_None:
  "next_dispatched nd = None \<Longrightarrow> get_queue_size nd = 0"
  by (auto simp: next_dispatched_def has_emergency_vehicles_def get_queue_size_def
      split: if_splits)

definition popped :: "nat \<Rightarrow> NodeData \<Rightarrow> TrafficNetwork \<Rightarrow> TrafficNetwork" where
  "popped i nd' net = net\<lparr>nodes := (nodes net)[i := nd']\<rparr>"

lemma popped_simps [simp]:
  "length (nodes (popped i nd' net)) = length (nodes net)"
  "stats (popped i nd' net) = stats net"
  "next_vehicle_id (popped i nd' net) = next_vehicle_id net"
  by (simp_all add: popped_def)

lemma popped_nth:
  "j < length (nodes net) \<Longrightarrow>
     nodes (popped i nd' net) ! j = (if j = i then nd' else nodes net ! j)"
  by (simp add: popped_def nth_list_update)

lemma popped_within_limit:
  assumes "next_dispatched (nodes net ! i) = Some (v, e, nd')" and "i < length (nodes net)"
  shows "within_limit (popped i nd' net) = within_limit net"
  using next_dispatched_fields [OF assms(1)] assms(2)
  by (auto simp: within_limit_nth popped_nth)

lemma serve_cases:
  assumes "i < length (nodes net)"
  obtains (empty) "next_dispatched (nodes net ! i) = None"
      "process_single_vehicle_movement i net = (False, net)"
      "process_node_vehicles i net = net"
    | (vehicle) v e nd' where "next_dispatched (nodes net ! i) = Some (v, e, nd')"
      "process_single_vehicle_movement i net
         = (fst (process_vehicle_step_by_step v i e (popped i nd' net)),
            snd (snd (process_vehicle_step_by_step v i e (popped i nd' net))))"
      "process_node_vehicles i net = snd (process_vehicle v i e (popped i nd' net))"
proof (cases "next_dispatched (nodes net ! i)")
  case None
  then show ?thesis
    using empty assms process_single_vehicle_movement_dispatch [OF assms]
      process_node_vehicles_dispatch [OF assms] by simp
next
  case (Some x)
  obtain v e nd' where x: "x = (v, e, nd')" by (cases x)
  show ?thesis
    using vehicle [of v e nd'] Some x process_single_vehicle_movement_dispatch [OF assms]
      process_node_vehicles_dispatch [OF assms]
    by (simp add: popped_def split: prod.splits)
qed

lemma serve_within_limit:
  assumes "within_limit net"
  shows "within_limit (snd (process_single_vehicle_movement i net))"
    and "within_limit (process_node_vehicles i net)"
proof -
  have "within_limit (snd (process_single_vehicle_movement i net))
      \<and> within_limit (process_node_vehicles i net)"
  proof (cases "i < length (nodes net)")
    case False
    then show ?thesis
      using assms by (simp add: process_single_vehicle_movement_def process_node_vehicles_def)
  next
    case True
    then show ?thesis
    proof (cases rule: serve_cases)
      case empty
      then show ?thesis using assms by simp
    next
      case (vehicle v e nd')
      have p: "within_limit (popped i nd' net)"
        using popped_within_limit [OF vehicle(1) True] assms by simp
      have "within_limit (snd (snd (process_vehicle_step_by_step v i e (popped i nd' net))))"
        using vehicle_effect_within_limit [OF _ p] process_vehicle_step_by_step_effect by blast
      moreover have "within_limit (snd (process_vehicle v i e (popped i nd' net)))"
        using vehicle_effect_within_limit [OF _ p] process_vehicle_effect by blast
      ultimately show ?thesis using vehicle by simp
    qed
  qed
  then show "within_limit (snd (process_single_vehicle_movement i net))"
    and "within_limit (process_node_vehicles i net)"
    by simp_all
qed

lemma step_loop_within_limit:
  "within_limit net \<Longrightarrow> within_limit (snd (step_loop i m net))"
proof (induction i m net rule: step_loop.induct)
  case (1 i m net)
  show ?case
  proof (cases "i < length (nodes net) \<and> \<not> m")
    case False
    then show ?thesis using "1.prems" by (simp add: step_loop_done)
  next
    case True
    show ?thesis
    proof (cases "get_queue_size (nodes net ! i) > 0")
      case q: True
      obtain m1 s1 where p: "process_single_vehicle_movement i net = (m1, s1)"
        by (cases "process_single_vehicle_movement i net")
      have w: "within_limit s1"
        using serve_within_limit(1) [OF "1.prems", of i] p by simp
      have "step_loop i m net = step_loop (i + 1) m1 s1"
        using True q p step_loop_serve [of i net m1 s1] by simp
      then show ?thesis
        using "1.IH"(1) [OF True q p [symmetric] w] by simp
    next
      case q: False
      have "step_loop i m net = step_loop (i + 1) m net"
        using True q step_loop_skip [of i net] by simp
      then show ?thesis
        using "1.IH"(2) [OF True q "1.prems"] by simp
    qed
  qed
qed

declare sweep_loop.simps [simp del]

lemma sweep_loop_within_limit:
  "within_limit net \<Longrightarrow> within_limit (sweep_loop i net)"
proof (induction i net rule: sweep_loop.induct)
  case (1 i net)
  show ?case
  proof (cases "i < length (nodes net)")
    case False
    then show ?thesis using "1.prems" by (subst sweep_loop.simps) simp
  next
    case True
    show ?thesis
    proof (cases "get_queue_size (nodes net ! i) > 0")
      case q: True
      have "within_limit (process_node_vehicles i net)"
        by (rule serve_within_limit(2) [OF "1.prems"])
      from "1.IH"(1) [OF True q this] show ?thesis
        using True q by (subst sweep_loop.simps) simp
    next
      case q: False
      from "1.IH"(2) [OF True q "1.prems"] show ?thesis
        using True q by (subst sweep_loop.simps) simp
    qed
  qed
qed

lemma apply_op_within_limit:
  "within_limit net \<Longrightarrow> within_limit (apply_op e net)"
  using step_loop_within_limit [of net 0 False] sweep_loop_within_limit [of net 0]
    serve_within_limit [of net]
  by (cases e) (simp_all add: apply_op_def execute_single_step_def)

lemma run_within_limit:
  "within_limit net \<Longrightarrow> within_limit (fold apply_op ops net)"
  by (induction ops arbitrary: net) (simp_all add: apply_op_within_limit)

section \<open>Conservation of vehicles\<close>

text \<open>
  The sum of the occupancies, the number of vehicles created so far (ids are given out
  from 1 by \<^verbatim>\<open>next_vehicle_id++\<close>) and the number of completed trips. Between two engine
  operations no vehicle is held outside the queues, so conservation reads: occupancy
  sum = created - completed.
\<close>

definition total_occupancy :: "TrafficNetwork \<Rightarrow> int" where
  "total_occupancy net = sum_list (map (\<lambda>nd. sint (current_vehicles nd)) (nodes net))"

definition vehicles_created :: "TrafficNetwork \<Rightarrow> int" where
  "vehicles_created net = sint (next_vehicle_id net) - 1"

definition vehicles_completed :: "TrafficNetwork \<Rightarrow> int" where
  "vehicles_completed net = sint (successful_routes (stats net))"

definition queue_consistent :: "TrafficNetwork \<Rightarrow> bool" where
  "queue_consistent net =
     list_all (\<lambda>nd. sint (current_vehicles nd) = int (get_queue_size nd)) (nodes net)"

definition conserved :: "TrafficNetwork \<Rightarrow> bool" where
  "conserved net =
     (queue_consistent net
      \<and> total_occupancy net = vehicles_created net - vehicles_completed net)"

lemma total_occupancy_sum:
  "total_occupancy net = (\<Sum>j<length (nodes net). sint (current_vehicles (nodes net ! j)))"
proof -
  let ?xs = "map (\<lambda>nd. sint (current_vehicles nd)) (nodes net)"
  have "sum_list ?xs = (\<Sum>j = 0..<length ?xs. ?xs ! j)"
    by (rule sum_list_sum_nth)
  also have "\<dots> = (\<Sum>j<length (nodes net). sint (current_vehicles (nodes net ! j)))"
    by (simp add: atLeast0LessThan)
  finally show ?thesis by (simp add: total_occupancy_def)
qed

lemma queue_consistent_nth:
  "queue_consistent net = (\<forall>j<length (nodes net).
      sint (current_vehicles (nodes net ! j)) = int (get_queue_size (nodes net ! j)))"
  by (simp add: queue_consistent_def list_all_length)

lemma sum_indicator:
  "(\<Sum>j<n. if P \<and> j = k then (1::int) else 0) = (if P \<and> k < (n::nat) then 1 else 0)"
proof (cases P)
  case True
  then have "(\<Sum>j<n. if P \<and> j = k then (1::int) else 0) = (\<Sum>j\<in>{..<n}. if k = j then 1 else 0)"
    by (intro sum.cong) auto
  also have "\<dots> = (if k \<in> {..<n} then 1 else 0)"
    using sum.delta' [of "{..<n}" k "\<lambda>j. 1::int"] by simp
  finally show ?thesis using True by simp
next
  case False
  then show ?thesis by simp
qed

lemma vehicle_effect_total:
  assumes eff: "vehicle_effect i v net net'"
    and i: "i < length (nodes net)"
    and pos: "0 < sint (current_vehicles (nodes net ! i))"
  shows "total_occupancy net' =
           total_occupancy net
             - (if is_moved net i v \<and> hop_of net i v = destination_node v then 1 else 0)"
proof -
  let ?n = "length (nodes net)"
  let ?M = "is_moved net i v"
  let ?h = "hop_of net i v"
  have len: "length (nodes net') = ?n" using eff by (rule vehicle_effect_length)
  have rng: "?M \<Longrightarrow> nat ?h < ?n"
    using admitted_below_max [of "nodes net" ?h "vtype v"] by (simp add: is_moved_def)
  have "total_occupancy net' = (\<Sum>j<?n. sint (current_vehicles (nodes net' ! j)))"
    using len by (simp add: total_occupancy_sum)
  also have "\<dots> = (\<Sum>j<?n. sint (current_vehicles (nodes net ! j))
         - (if ?M \<and> j = i then 1 else 0)
         + (if (?M \<and> ?h \<noteq> destination_node v) \<and> j = nat ?h then 1 else 0))"
    using vehicle_effect_occupancy [OF eff] pos by (intro sum.cong) auto
  also have "\<dots> = (\<Sum>j<?n. sint (current_vehicles (nodes net ! j)))
         - (\<Sum>j<?n. if ?M \<and> j = i then 1 else 0)
         + (\<Sum>j<?n. if (?M \<and> ?h \<noteq> destination_node v) \<and> j = nat ?h then 1 else 0)"
    by (simp add: sum.distrib sum_subtractf)
  also have "\<dots> = total_occupancy net - (if ?M \<and> i < ?n then 1 else 0)
         + (if (?M \<and> ?h \<noteq> destination_node v) \<and> nat ?h < ?n then 1 else 0)"
    unfolding sum_indicator total_occupancy_sum ..
  also have "\<dots> = total_occupancy net - (if ?M then 1 else 0)
         + (if ?M \<and> ?h \<noteq> destination_node v then 1 else 0)"
    using i rng by auto
  finally show ?thesis by auto
qed

lemma total_occupancy_lower:
  assumes "queue_consistent net" and "i < length (nodes net)"
  shows "sint (current_vehicles (nodes net ! i)) \<le> total_occupancy net"
proof -
  let ?f = "\<lambda>j. sint (current_vehicles (nodes net ! j))"
  have nn: "\<forall>j\<in>{..<length (nodes net)}. 0 \<le> ?f j"
    using assms(1) by (simp add: queue_consistent_nth)
  have "?f i \<le> sum ?f {..<length (nodes net)}"
    using assms(2) nn by (intro member_le_sum) auto
  then show ?thesis by (simp add: total_occupancy_sum)
qed

lemma popped_total_occupancy:
  assumes "next_dispatched (nodes net ! i) = Some (v, e, nd')" and "i < length (nodes net)"
  shows "total_occupancy (popped i nd' net) = total_occupancy net"
proof -
  have "sint (current_vehicles (nodes (popped i nd' net) ! j))
      = sint (current_vehicles (nodes net ! j))" if "j < length (nodes net)" for j
    using that next_dispatched_fields [OF assms(1)] by (simp add: popped_nth)
  then show ?thesis by (simp add: total_occupancy_sum)
qed

text \<open>
  Serving a node whose dispatched vehicle has the effect \<open>vehicle_effect\<close> keeps the
  conservation invariant.
\<close>

lemma serve_conserved:
  assumes inv: "conserved net"
    and i: "i < length (nodes net)"
    and nx: "next_dispatched (nodes net ! i) = Some (v, e, nd')"
    and eff: "vehicle_effect i v (popped i nd' net) net'"
  shows "conserved net'"
proof -
  let ?P = "popped i nd' net"
  let ?n = "length (nodes net)"
  let ?M = "is_moved ?P i v"
  let ?h = "hop_of ?P i v"
  let ?C = "?M \<and> ?h = destination_node v"
  have qc: "queue_consistent net"
    and cons: "total_occupancy net = vehicles_created net - vehicles_completed net"
    using inv by (simp_all add: conserved_def)
  have fld: "current_vehicles nd' = current_vehicles (nodes net ! i)"
      "Suc (get_queue_size nd') = get_queue_size (nodes net ! i)"
    using next_dispatched_fields [OF nx] by simp_all
  have occ_i: "sint (current_vehicles (nodes net ! i)) = int (get_queue_size (nodes net ! i))"
    using qc i by (simp add: queue_consistent_nth)
  have pos: "0 < sint (current_vehicles (nodes ?P ! i))"
    using occ_i fld i by (simp add: popped_nth)
  have lenP: "length (nodes ?P) = ?n" by simp
  have len': "length (nodes net') = ?n"
    using vehicle_effect_length [OF eff] by simp
  \<comment> \<open>each node's occupancy again equals its queue size\<close>
  have "sint (current_vehicles (nodes net' ! j)) = int (get_queue_size (nodes net' ! j))"
    if j: "j < ?n" for j
  proof -
    have jP: "j < length (nodes ?P)" using j by simp
    have o: "sint (current_vehicles (nodes ?P ! j)) = int (get_queue_size (nodes net ! j))"
      using qc j fld by (simp add: queue_consistent_nth popped_nth)
    have q: "int (get_queue_size (nodes ?P ! j))
        = int (get_queue_size (nodes net ! j)) - (if j = i then 1 else 0)"
      using j fld by (auto simp: popped_nth)
    show ?thesis
      using vehicle_effect_occupancy [OF eff jP] vehicle_effect_queue_size [OF eff jP] o q pos
      by (auto split: if_splits)
  qed
  then have qc': "queue_consistent net'"
    using len' by (simp add: queue_consistent_nth)
  \<comment> \<open>the occupancy sum drops by one exactly when a trip completes\<close>
  have tot: "total_occupancy net' = total_occupancy net - (if ?C then 1 else 0)"
    using vehicle_effect_total [OF eff _ pos] i popped_total_occupancy [OF nx i] by simp
  \<comment> \<open>and then the completion counter has room for the increment\<close>
  have one: "1 \<le> total_occupancy net"
    using total_occupancy_lower [OF qc i] occ_i fld by linarith
  have "vehicles_created net \<le> 2147483646"
    using sint32_upper [of "next_vehicle_id net"] by (simp add: vehicles_created_def)
  then have room: "sint (successful_routes (stats net)) < 2147483647"
    using cons one by (simp add: vehicles_completed_def)
  have sr: "successful_routes (stats net') =
      successful_routes (stats net) + (if ?C then 1 else 0)"
    using eff by (simp add: vehicle_effect_def)
  have comp: "vehicles_completed net' = vehicles_completed net + (if ?C then 1 else 0)"
    using sr sint32_inc [OF room] by (simp add: vehicles_completed_def)
  have crea: "vehicles_created net' = vehicles_created net"
    using eff by (simp add: vehicle_effect_def vehicles_created_def)
  show ?thesis
    using qc' tot comp crea cons by (simp add: conserved_def)
qed

lemma serve_node_conserved:
  assumes "conserved net"
  shows "conserved (snd (process_single_vehicle_movement i net))"
    and "conserved (process_node_vehicles i net)"
proof -
  have "conserved (snd (process_single_vehicle_movement i net))
      \<and> conserved (process_node_vehicles i net)"
  proof (cases "i < length (nodes net)")
    case False
    then show ?thesis
      using assms by (simp add: process_single_vehicle_movement_def process_node_vehicles_def)
  next
    case True
    then show ?thesis
    proof (cases rule: serve_cases)
      case empty
      then show ?thesis using assms by simp
    next
      case (vehicle v e nd')
      have "conserved (snd (snd (process_vehicle_step_by_step v i e (popped i nd' net))))"
        using serve_conserved [OF assms True vehicle(1)] process_vehicle_step_by_step_effect
        by blast
      moreover have "conserved (snd (process_vehicle v i e (popped i nd' net)))"
        using serve_conserved [OF assms True vehicle(1)] process_vehicle_effect by blast
      ultimately show ?thesis using vehicle by simp
    qed
  qed
  then show "conserved (snd (process_single_vehicle_movement i net))"
    and "conserved (process_node_vehicles i net)"
    by simp_all
qed

lemma step_loop_conserved:
  "conserved net \<Longrightarrow> conserved (snd (step_loop i m net))"
proof (induction i m net rule: step_loop.induct)
  case (1 i m net)
  show ?case
  proof (cases "i < length (nodes net) \<and> \<not> m")
    case False
    then show ?thesis using "1.prems" by (simp add: step_loop_done)
  next
    case True
    show ?thesis
    proof (cases "get_queue_size (nodes net ! i) > 0")
      case q: True
      obtain m1 s1 where p: "process_single_vehicle_movement i net = (m1, s1)"
        by (cases "process_single_vehicle_movement i net")
      have w: "conserved s1"
        using serve_node_conserved(1) [OF "1.prems", of i] p by simp
      have "step_loop i m net = step_loop (i + 1) m1 s1"
        using True q p step_loop_serve [of i net m1 s1] by simp
      then show ?thesis
        using "1.IH"(1) [OF True q p [symmetric] w] by simp
    next
      case q: False
      have "step_loop i m net = step_loop (i + 1) m net"
        using True q step_loop_skip [of i net] by simp
      then show ?thesis
        using "1.IH"(2) [OF True q "1.prems"] by simp
    qed
  qed
qed

lemma sweep_loop_conserved:
  "conserved net \<Longrightarrow> conserved (sweep_loop i net)"
proof (induction i net rule: sweep_loop.induct)
  case (1 i net)
  show ?case
  proof (cases "i < length (nodes net)")
    case False
    then show ?thesis using "1.prems" by (subst sweep_loop.simps) simp
  next
    case True
    show ?thesis
    proof (cases "get_queue_size (nodes net ! i) > 0")
      case q: True
      have "conserved (process_node_vehicles i net)"
        by (rule serve_node_conserved(2) [OF "1.prems"])
      from "1.IH"(1) [OF True q this] show ?thesis
        using True q by (subst sweep_loop.simps) simp
    next
      case q: False
      from "1.IH"(2) [OF True q "1.prems"] show ?thesis
        using True q by (subst sweep_loop.simps) simp
    qed
  qed
qed

lemma apply_op_conserved:
  "conserved net \<Longrightarrow> conserved (apply_op e net)"
  using step_loop_conserved [of net 0 False] sweep_loop_conserved [of net 0]
    serve_node_conserved [of net]
  by (cases e) (simp_all add: apply_op_def execute_single_step_def)

lemma run_conserved:
  "conserved net \<Longrightarrow> conserved (fold apply_op ops net)"
  by (induction ops arbitrary: net) (simp_all add: apply_op_conserved)

section \<open>The two invariants of the engine\<close>

lemma scan_example_start:
  "queue_consistent scan_example"
  "total_occupancy scan_example = 2"
  "vehicles_created scan_example = 2"
  "vehicles_completed scan_example = 0"
  "list_all (\<lambda>nd. sint (current_vehicles nd) \<le> sint (capacity nd)) (nodes scan_example)"
  by (simp_all add: scan_example_def queue_consistent_def total_occupancy_def
      vehicles_created_def vehicles_completed_def get_queue_size_def NodeData_init_def
      SystemStats_init_def)

text \<open>
  C7. Start from a state in which every node's occupancy equals the number of its queued
  vehicles and is at most its capacity. After any run of engine operations (a single
  step, serving one node in step mode, a sweep, serving one node in automatic mode) every
  node's occupancy is at most capacity + 1. And in any state, if serving node \<open>i\<close> raises
  the occupancy of a node \<open>j\<close> to a value above its capacity, the vehicle that was
  dispatched is not Regular: a Regular admission never pushes occupancy above capacity.
\<close>

theorem occupancy_invariant:
  assumes "list_all (\<lambda>nd. sint (current_vehicles nd) = int (get_queue_size nd)
                         \<and> sint (current_vehicles nd) \<le> sint (capacity nd)) (nodes net)"
  shows "within_limit (fold apply_op ops net)
       \<and> (\<forall>s i j s'. i < length (nodes s) \<and> j < length (nodes s)
             \<and> (s' = snd (process_single_vehicle_movement i s) \<or> s' = process_node_vehicles i s)
             \<and> sint (current_vehicles (nodes s ! j)) < sint (current_vehicles (nodes s' ! j))
             \<and> sint (capacity (nodes s ! j)) < sint (current_vehicles (nodes s' ! j))
             \<longrightarrow> (\<exists>v e nd'. next_dispatched (nodes s ! i) = Some (v, e, nd')
                    \<and> vtype v \<noteq> REGULAR))"
proof -
  have "within_limit net"
    using assms by (auto simp: within_limit_def list_all_iff)
  then have a: "within_limit (fold apply_op ops net)"
    by (rule run_within_limit)
  have b: "\<exists>v e nd'. next_dispatched (nodes s ! i) = Some (v, e, nd') \<and> vtype v \<noteq> REGULAR"
    if i: "i < length (nodes s)" and j: "j < length (nodes s)"
      and s': "s' = snd (process_single_vehicle_movement i s) \<or> s' = process_node_vehicles i s"
      and up: "sint (current_vehicles (nodes s ! j)) < sint (current_vehicles (nodes s' ! j))"
      and over: "sint (capacity (nodes s ! j)) < sint (current_vehicles (nodes s' ! j))"
    for s i j s'
    using i
  proof (cases rule: serve_cases)
    case empty
    then show ?thesis using s' up by auto
  next
    case (vehicle v e nd')
    let ?P = "popped i nd' s"
    have eff: "vehicle_effect i v ?P s'"
      using s' vehicle process_vehicle_step_by_step_effect [of v i e ?P]
        process_vehicle_effect [of i v ?P e]
      by auto
    have jP: "j < length (nodes ?P)" using j by simp
    have same: "current_vehicles (nodes ?P ! j) = current_vehicles (nodes s ! j)"
        "capacity (nodes ?P ! j) = capacity (nodes s ! j)"
      using next_dispatched_fields [OF vehicle(1)] j by (simp_all add: popped_nth)
    have "vtype v \<noteq> REGULAR"
      using vehicle_effect_bound [OF eff jP] up over unfolding same
      by (auto split: if_splits)
    then show ?thesis using vehicle(1) by blast
  qed
  from a b show ?thesis by blast
qed

theorem occupancy_invariant_witness:
  "within_limit (fold apply_op [Single_Step, Sweep, Serve_Node 0, Sweep_Node 1] scan_example)"
  using occupancy_invariant [of scan_example "[Single_Step, Sweep, Serve_Node 0, Sweep_Node 1]"]
  by (simp add: scan_example_def get_queue_size_def NodeData_init_def)

text \<open>
  C8. Start from a state in which every node's occupancy equals the number of its queued
  vehicles and the vehicles created so far are those queued plus those completed. After
  every engine operation of a run, in step mode or in a sweep, each node's occupancy
  again equals its queued-vehicle count and the sum of the occupancies equals the number
  of vehicles created minus the number of completed trips; no vehicle is in transit
  between two operations.
\<close>

theorem vehicle_conservation:
  assumes "queue_consistent net"
    and "total_occupancy net = vehicles_created net - vehicles_completed net"
  shows "queue_consistent (fold apply_op ops net)
       \<and> total_occupancy (fold apply_op ops net)
           = vehicles_created (fold apply_op ops net) - vehicles_completed (fold apply_op ops net)"
proof -
  have "conserved net" using assms by (simp add: conserved_def)
  then have "conserved (fold apply_op ops net)" by (rule run_conserved)
  then show ?thesis by (simp add: conserved_def)
qed

theorem vehicle_conservation_witness:
  "fold apply_op [Single_Step] scan_example = scan_example_after
   \<and> total_occupancy scan_example_after = 1
   \<and> vehicles_created scan_example_after = 2
   \<and> vehicles_completed scan_example_after = 1
   \<and> total_occupancy scan_example_after
       = vehicles_created scan_example_after - vehicles_completed scan_example_after"
proof -
  have r: "fold apply_op [Single_Step] scan_example = scan_example_after"
    by (simp add: apply_op_def scan_example_step)
  have "total_occupancy scan_example = vehicles_created scan_example
      - vehicles_completed scan_example"
    by (simp add: scan_example_start)
  from vehicle_conservation [OF scan_example_start(1) this, of "[Single_Step]"] r
  have "total_occupancy scan_example_after
       = vehicles_created scan_example_after - vehicles_completed scan_example_after"
    by simp
  moreover have "vehicles_created scan_example_after = 2"
      "vehicles_completed scan_example_after = 1"
    by (simp_all add: scan_example_after_def vehicles_created_def vehicles_completed_def
        SystemStats_init_def)
  ultimately show ?thesis using r by simp
qed

section \<open>Reachability in the adjacency matrix\<close>

text \<open>
  The directed edges of an adjacency matrix (a positive entry in row \<open>u\<close>, column \<open>w\<close>),
  and the same relation read in both directions.
\<close>

definition edges :: "int list list \<Rightarrow> (nat \<times> nat) set" where
  "edges adj = {(u, w). u < length adj \<and> w < length adj \<and> adj ! u ! w > 0}"

definition undirected_edges :: "int list list \<Rightarrow> (nat \<times> nat) set" where
  "undirected_edges adj = edges adj \<union> (edges adj)\<inverse>"

definition nvisited :: "bool list \<Rightarrow> nat" where
  "nvisited visited = card {i. i < length visited \<and> visited ! i}"

lemma nvisited_update:
  assumes "i < length visited" and "\<not> visited ! i"
  shows "nvisited (visited[i := True]) = Suc (nvisited visited)"
proof -
  let ?V = "{j. j < length visited \<and> visited ! j}"
  have "{j. j < length (visited[i := True]) \<and> visited[i := True] ! j} = insert i ?V"
    using assms by (auto simp: nth_list_update)
  moreover have "finite ?V" "i \<notin> ?V" using assms by simp_all
  ultimately show ?thesis by (simp add: nvisited_def)
qed

lemma nvisited_full:
  "(nvisited visited = length visited) = (\<forall>i<length visited. visited ! i)"
proof -
  let ?V = "{j. j < length visited \<and> visited ! j}"
  have sub: "?V \<subseteq> {..<length visited}" by auto
  show ?thesis
  proof
    assume "nvisited visited = length visited"
    then have "card ?V = card {..<length visited}" by (simp add: nvisited_def)
    then have "?V = {..<length visited}"
      using sub by (intro card_subset_eq) simp_all
    then show "\<forall>i<length visited. visited ! i" by auto
  next
    assume "\<forall>i<length visited. visited ! i"
    then have "?V = {..<length visited}" by auto
    then show "nvisited visited = length visited" by (simp add: nvisited_def)
  qed
qed

text \<open>What the inner loop of the depth-first search leaves behind.\<close>

lemma dfs_row_result:
  assumes "\<forall>i\<in>set is. i < length visited"
    and "dfs_row adj cur is (visited, st, cnt) = (visited', st', cnt')"
  shows "length visited' = length visited
       \<and> (\<forall>v<length visited. visited' ! v = (visited ! v \<or> (v \<in> set is \<and> adj ! cur ! v > 0)))
       \<and> set st' = set st \<union> {v \<in> set is. adj ! cur ! v > 0 \<and> \<not> visited ! v}
       \<and> (cnt = nvisited visited \<longrightarrow> cnt' = nvisited visited')"
  using assms
proof (induction "is" arbitrary: visited st cnt)
  case Nil
  then show ?case by simp
next
  case (Cons i rest)
  have il: "i < length visited" using Cons.prems(1) by simp
  show ?case
  proof (cases "adj ! cur ! i > 0 \<and> \<not> visited ! i")
    case True
    let ?v1 = "visited[i := True]"
    have run: "dfs_row adj cur rest (?v1, i # st, cnt + 1) = (visited', st', cnt')"
      using Cons.prems(2) True by simp
    have b: "\<forall>j\<in>set rest. j < length ?v1" using Cons.prems(1) by simp
    note ih = Cons.IH [OF b run]
    have l: "length visited' = length visited" using ih by simp
    have v: "\<forall>v<length visited.
        visited' ! v = (visited ! v \<or> (v \<in> set (i # rest) \<and> adj ! cur ! v > 0))"
    proof (intro allI impI)
      fix v assume vl: "v < length visited"
      then have "visited' ! v = (?v1 ! v \<or> (v \<in> set rest \<and> adj ! cur ! v > 0))"
        using ih by simp
      then show "visited' ! v = (visited ! v \<or> (v \<in> set (i # rest) \<and> adj ! cur ! v > 0))"
        using True vl il by (cases "v = i") (auto simp: nth_list_update)
    qed
    have s: "set st' = set st \<union> {v \<in> set (i # rest). adj ! cur ! v > 0 \<and> \<not> visited ! v}"
    proof -
      have "set st' = set (i # st) \<union> {v \<in> set rest. adj ! cur ! v > 0 \<and> \<not> ?v1 ! v}"
        using ih by simp
      moreover have "\<not> ?v1 ! v = (\<not> visited ! v \<and> v \<noteq> i)" if "v \<in> set rest" for v
        using that Cons.prems(1) il by (cases "v = i") (auto simp: nth_list_update)
      ultimately show ?thesis using True by auto
    qed
    have c: "cnt = nvisited visited \<longrightarrow> cnt' = nvisited visited'"
      using ih nvisited_update [OF il] True by simp
    from l v s c show ?thesis by blast
  next
    case False
    then have run: "dfs_row adj cur rest (visited, st, cnt) = (visited', st', cnt')"
      using Cons.prems(2) by auto
    have b: "\<forall>j\<in>set rest. j < length visited" using Cons.prems(1) by simp
    note ih = Cons.IH [OF b run]
    have v: "\<forall>v<length visited.
        visited' ! v = (visited ! v \<or> (v \<in> set (i # rest) \<and> adj ! cur ! v > 0))"
      using ih False by auto
    have s: "set st' = set st \<union> {v \<in> set (i # rest). adj ! cur ! v > 0 \<and> \<not> visited ! v}"
      using ih False by auto
    from ih v s show ?thesis by blast
  qed
qed

text \<open>
  The invariant of a search from \<open>src\<close> with the visited marks \<open>visited\<close> and the work
  list \<open>wl\<close>: marked nodes are reachable, the work list holds marked nodes, and every
  marked node that is not in the work list has all its successors marked.
\<close>

definition search_inv :: "int list list \<Rightarrow> nat \<Rightarrow> bool list \<Rightarrow> nat list \<Rightarrow> bool" where
  "search_inv adj src visited wl =
     (length visited = length adj \<and> src < length adj \<and> visited ! src
      \<and> (\<forall>v\<in>set wl. v < length adj \<and> visited ! v)
      \<and> (\<forall>v<length adj. visited ! v \<longrightarrow> (src, v) \<in> (edges adj)\<^sup>*)
      \<and> (\<forall>u<length adj. visited ! u \<and> u \<notin> set wl \<longrightarrow>
            (\<forall>w. (u, w) \<in> edges adj \<longrightarrow> visited ! w)))"

lemma search_inv_done:
  assumes "search_inv adj src visited []" and "v < length adj"
  shows "visited ! v = ((src, v) \<in> (edges adj)\<^sup>*)"
proof
  assume "visited ! v"
  then show "(src, v) \<in> (edges adj)\<^sup>*"
    using assms by (simp add: search_inv_def)
next
  assume "(src, v) \<in> (edges adj)\<^sup>*"
  then show "visited ! v"
  proof (induction rule: rtrancl_induct)
    case base
    show ?case using assms(1) by (simp add: search_inv_def)
  next
    case (step y z)
    have "y < length adj" using step.hyps(2) by (simp add: edges_def)
    then show ?case
      using assms(1) step by (simp add: search_inv_def)
  qed
qed

lemma search_inv_step:
  assumes inv: "search_inv adj src visited (cur # wl)"
    and len: "length visited' = length visited"
    and vis: "\<forall>v<length visited. visited' ! v = (visited ! v \<or> (v < length adj \<and> adj ! cur ! v > 0))"
    and wl': "set wl' = set wl \<union> {v. v < length adj \<and> adj ! cur ! v > 0 \<and> \<not> visited ! v}"
  shows "search_inv adj src visited' wl'"
proof -
  let ?n = "length adj"
  have l: "length visited = ?n" and s: "src < ?n" "visited ! src"
    and w: "\<forall>v\<in>set (cur # wl). v < ?n \<and> visited ! v"
    and r: "\<forall>v<?n. visited ! v \<longrightarrow> (src, v) \<in> (edges adj)\<^sup>*"
    and c: "\<forall>u<?n. visited ! u \<and> u \<notin> set (cur # wl) \<longrightarrow>
            (\<forall>w. (u, w) \<in> edges adj \<longrightarrow> visited ! w)"
    using inv by (simp_all add: search_inv_def)
  have cur: "cur < ?n" "visited ! cur" using w by simp_all
  have v': "visited' ! v = (visited ! v \<or> adj ! cur ! v > 0)" if "v < ?n" for v
    using vis that l by simp
  have 1: "\<forall>v\<in>set wl'. v < ?n \<and> visited' ! v"
    using wl' w v' by auto
  have 2: "\<forall>v<?n. visited' ! v \<longrightarrow> (src, v) \<in> (edges adj)\<^sup>*"
  proof (intro allI impI)
    fix v assume vn: "v < ?n" and vv: "visited' ! v"
    show "(src, v) \<in> (edges adj)\<^sup>*"
    proof (cases "visited ! v")
      case True
      then show ?thesis using r vn by simp
    next
      case False
      then have "adj ! cur ! v > 0" using vv v' [OF vn] by simp
      then have "(cur, v) \<in> edges adj" using cur vn by (simp add: edges_def)
      moreover have "(src, cur) \<in> (edges adj)\<^sup>*" using r cur by simp
      ultimately show ?thesis by (rule rtrancl_into_rtrancl [rotated])
    qed
  qed
  have 3: "\<forall>u<?n. visited' ! u \<and> u \<notin> set wl' \<longrightarrow>
            (\<forall>w. (u, w) \<in> edges adj \<longrightarrow> visited' ! w)"
  proof (intro allI impI)
    fix u w assume un: "u < ?n" and u: "visited' ! u \<and> u \<notin> set wl'"
      and e: "(u, w) \<in> edges adj"
    have wn: "w < ?n" and pos: "adj ! u ! w > 0" using e by (simp_all add: edges_def)
    show "visited' ! w"
    proof (cases "u = cur")
      case True
      then show ?thesis using pos v' [OF wn] by simp
    next
      case False
      have "visited ! u"
      proof (rule ccontr)
        assume nv: "\<not> visited ! u"
        then have "adj ! cur ! u > 0" using u v' [OF un] by simp
        then have "u \<in> set wl'" using wl' un nv by simp
        then show False using u by simp
      qed
      moreover have "u \<notin> set (cur # wl)" using False u wl' by auto
      ultimately have "visited ! w" using c un e by blast
      then show ?thesis using v' [OF wn] by simp
    qed
  qed
  have "visited' ! src" using s v' by simp
  then show ?thesis
    using len l s 1 2 3 by (simp add: search_inv_def)
qed

declare dfs_loop.simps [simp del]

lemma dfs_loop_count:
  assumes "search_inv adj 0 visited st" and "cnt = nvisited visited"
  shows "dfs_loop adj visited st cnt = card {v. v < length adj \<and> (0, v) \<in> (edges adj)\<^sup>*}"
  using assms
proof (induction adj visited st cnt rule: dfs_loop.induct)
  case (1 adj visited cnt)
  have len: "length visited = length adj"
    using "1.prems"(1) by (simp add: search_inv_def)
  have "{v. v < length adj \<and> (0, v) \<in> (edges adj)\<^sup>*} = {i. i < length visited \<and> visited ! i}"
    using search_inv_done [OF "1.prems"(1)] len by auto
  then show ?case
    using "1.prems"(2) by (simp add: dfs_loop.simps nvisited_def)
next
  case (2 adj visited cur st cnt)
  obtain visited' st' cnt' where row:
    "dfs_row adj cur [0..<length visited] (visited, st, cnt) = (visited', st', cnt')"
    by (cases "dfs_row adj cur [0..<length visited] (visited, st, cnt)")
  have len: "length visited = length adj"
    using "2.prems"(1) by (simp add: search_inv_def)
  have res: "length visited' = length visited"
      "\<forall>v<length visited.
         visited' ! v = (visited ! v \<or> (v \<in> set [0..<length visited] \<and> adj ! cur ! v > 0))"
      "set st' = set st \<union> {v \<in> set [0..<length visited]. adj ! cur ! v > 0 \<and> \<not> visited ! v}"
      "cnt' = nvisited visited'"
    using dfs_row_result [OF _ row] "2.prems"(2) by simp_all
  have inv': "search_inv adj 0 visited' st'"
  proof (rule search_inv_step [OF "2.prems"(1) res(1)])
    show "\<forall>v<length visited.
        visited' ! v = (visited ! v \<or> (v < length adj \<and> adj ! cur ! v > 0))"
      using res(2) len by simp
    show "set st' = set st \<union> {v. v < length adj \<and> adj ! cur ! v > 0 \<and> \<not> visited ! v}"
      using res(3) len by auto
  qed
  have "dfs_loop adj visited (cur # st) cnt = dfs_loop adj visited' st' cnt'"
    using row by (simp add: dfs_loop.simps)
  then show ?case
    using "2.IH" [OF row [symmetric] refl inv' res(4)] by simp
qed

text \<open>
  \<^verbatim>\<open>is_graph_connected\<close> holds exactly when there is a node 0 and every node is reachable
  from it along directed edges.
\<close>

lemma is_graph_connected_iff:
  "is_graph_connected adj =
     (0 < length adj \<and> (\<forall>v<length adj. (0, v) \<in> (edges adj)\<^sup>*))"
proof (cases "length adj = 0")
  case True
  then show ?thesis by (simp add: is_graph_connected_def)
next
  case False
  let ?n = "length adj"
  let ?v0 = "(replicate ?n False)[0 := True]"
  let ?R = "{v. v < ?n \<and> (0, v) \<in> (edges adj)\<^sup>*}"
  have pos: "0 < ?n" using False by simp
  have v0: "?v0 ! v = (v = 0)" if "v < ?n" for v
    using that by (cases "v = 0") simp_all
  have inv: "search_inv adj 0 ?v0 [0]"
    using pos v0 by (auto simp: search_inv_def)
  have "{i. i < length ?v0 \<and> ?v0 ! i} = {0}"
    using pos v0 by auto
  then have one: "(1::nat) = nvisited ?v0" by (simp add: nvisited_def)
  have cnt: "dfs_loop adj ?v0 [0] 1 = card ?R"
    by (rule dfs_loop_count [OF inv one])
  have sub: "?R \<subseteq> {..<?n}" by auto
  have "(card ?R = ?n) = (\<forall>v<?n. (0, v) \<in> (edges adj)\<^sup>*)"
  proof
    assume "card ?R = ?n"
    then have "card ?R = card {..<?n}" by simp
    then have "?R = {..<?n}" using sub by (intro card_subset_eq) simp_all
    then show "\<forall>v<?n. (0, v) \<in> (edges adj)\<^sup>*" by auto
  next
    assume "\<forall>v<?n. (0, v) \<in> (edges adj)\<^sup>*"
    then have "?R = {..<?n}" by auto
    then show "card ?R = ?n" by simp
  qed
  then show ?thesis
    using False cnt by (simp add: is_graph_connected_def Let_def)
qed

text \<open>What the inner loop of the breadth-first search of \<^verbatim>\<open>is_path_exists\<close> does.\<close>

lemma bfs_row_result:
  assumes "\<forall>i\<in>set is. i < length visited"
  shows "case bfs_row adj cur dest is (visited, q) of
           Return_True \<Rightarrow> dest \<in> set is \<and> adj ! cur ! dest > 0
         | Continue (visited', q') \<Rightarrow>
             length visited' = length visited
           \<and> (\<forall>v<length visited.
                 visited' ! v = (visited ! v \<or> (v \<in> set is \<and> adj ! cur ! v > 0)))
           \<and> set q' = set q \<union> {v \<in> set is. adj ! cur ! v > 0 \<and> \<not> visited ! v}
           \<and> (dest \<in> set is \<and> adj ! cur ! dest > 0 \<longrightarrow> visited ! dest)"
  using assms
proof (induction "is" arbitrary: visited q)
  case Nil
  then show ?case by simp
next
  case (Cons i rest)
  have il: "i < length visited" using Cons.prems by simp
  show ?case
  proof (cases "adj ! cur ! i > 0 \<and> \<not> visited ! i")
    case True
    show ?thesis
    proof (cases "i = dest")
      case d: True
      then show ?thesis using True by simp
    next
      case d: False
      let ?v1 = "visited[i := True]"
      have b: "\<forall>j\<in>set rest. j < length ?v1" using Cons.prems by simp
      have eq: "bfs_row adj cur dest (i # rest) (visited, q)
          = bfs_row adj cur dest rest (?v1, q @ [i])"
        using True d by simp
      show ?thesis
      proof (cases "bfs_row adj cur dest rest (?v1, q @ [i])")
        case Return_True
        then show ?thesis using Cons.IH [OF b, of "q @ [i]"] eq by simp
      next
        case (Continue st)
        obtain visited' q' where st: "st = (visited', q')" by (cases st)
        have ih: "length visited' = length ?v1"
            "\<forall>v<length ?v1. visited' ! v = (?v1 ! v \<or> (v \<in> set rest \<and> adj ! cur ! v > 0))"
            "set q' = set (q @ [i]) \<union> {v \<in> set rest. adj ! cur ! v > 0 \<and> \<not> ?v1 ! v}"
            "dest \<in> set rest \<and> adj ! cur ! dest > 0 \<longrightarrow> ?v1 ! dest"
          using Cons.IH [OF b, of "q @ [i]"] Continue st by simp_all
        have v: "\<forall>v<length visited.
            visited' ! v = (visited ! v \<or> (v \<in> set (i # rest) \<and> adj ! cur ! v > 0))"
        proof (intro allI impI)
          fix v assume vl: "v < length visited"
          then have "visited' ! v = (?v1 ! v \<or> (v \<in> set rest \<and> adj ! cur ! v > 0))"
            using ih(2) by simp
          then show "visited' ! v
              = (visited ! v \<or> (v \<in> set (i # rest) \<and> adj ! cur ! v > 0))"
            using True vl il by (cases "v = i") (auto simp: nth_list_update)
        qed
        have s: "set q' = set q \<union> {v \<in> set (i # rest). adj ! cur ! v > 0 \<and> \<not> visited ! v}"
        proof -
          have "\<not> ?v1 ! v = (\<not> visited ! v \<and> v \<noteq> i)" if "v \<in> set rest" for v
            using that Cons.prems il by (cases "v = i") (auto simp: nth_list_update)
          then show ?thesis using ih(3) True by auto
        qed
        have dd: "dest \<in> set (i # rest) \<and> adj ! cur ! dest > 0 \<longrightarrow> visited ! dest"
        proof (intro impI)
          assume a: "dest \<in> set (i # rest) \<and> adj ! cur ! dest > 0"
          then have "dest \<in> set rest" using d by auto
          then have "?v1 ! dest" using ih(4) a by simp
          moreover have "dest < length visited" using a Cons.prems by auto
          ultimately show "visited ! dest" using d by (simp add: nth_list_update)
        qed
        show ?thesis
          using eq Continue st ih(1) v s dd by simp
      qed
    qed
  next
    case False
    have b: "\<forall>j\<in>set rest. j < length visited" using Cons.prems by simp
    have eq: "bfs_row adj cur dest (i # rest) (visited, q)
        = bfs_row adj cur dest rest (visited, q)"
      using False by auto
    show ?thesis
    proof (cases "bfs_row adj cur dest rest (visited, q)")
      case Return_True
      then show ?thesis using Cons.IH [OF b, of q] eq by simp
    next
      case (Continue st)
      obtain visited' q' where st: "st = (visited', q')" by (cases st)
      have ih: "length visited' = length visited"
          "\<forall>v<length visited. visited' ! v = (visited ! v \<or> (v \<in> set rest \<and> adj ! cur ! v > 0))"
          "set q' = set q \<union> {v \<in> set rest. adj ! cur ! v > 0 \<and> \<not> visited ! v}"
          "dest \<in> set rest \<and> adj ! cur ! dest > 0 \<longrightarrow> visited ! dest"
        using Cons.IH [OF b, of q] Continue st by simp_all
      have v: "\<forall>v<length visited.
          visited' ! v = (visited ! v \<or> (v \<in> set (i # rest) \<and> adj ! cur ! v > 0))"
        using ih(2) False by auto
      have s: "set q' = set q \<union> {v \<in> set (i # rest). adj ! cur ! v > 0 \<and> \<not> visited ! v}"
        using ih(3) False by auto
      have dd: "dest \<in> set (i # rest) \<and> adj ! cur ! dest > 0 \<longrightarrow> visited ! dest"
        using ih(4) False by auto
      show ?thesis
        using eq Continue st ih(1) v s dd by simp
    qed
  qed
qed

declare path_loop.simps [simp del]

lemma path_loop_iff:
  assumes "search_inv adj src visited q" and "dest < length adj" and "\<not> visited ! dest"
  shows "path_loop adj dest visited q = ((src, dest) \<in> (edges adj)\<^sup>*)"
  using assms
proof (induction adj dest visited q rule: path_loop.induct)
  case (1 adj dest visited)
  then show ?case
    using search_inv_done [OF "1.prems"(1,2)] by (simp add: path_loop.simps)
next
  case (2 adj dest visited cur q)
  have len: "length visited = length adj"
    and cur: "cur < length adj" "(src, cur) \<in> (edges adj)\<^sup>*"
    using "2.prems"(1) by (simp_all add: search_inv_def)
  note row = bfs_row_result [of "[0..<length visited]" visited dest adj cur q]
  show ?case
  proof (cases "bfs_row adj cur dest [0..<length visited] (visited, q)")
    case Return_True
    then have "adj ! cur ! dest > 0" using row by simp
    then have "(cur, dest) \<in> edges adj"
      using cur "2.prems"(2) by (simp add: edges_def)
    then have "(src, dest) \<in> (edges adj)\<^sup>*"
      using cur(2) by (rule rtrancl_into_rtrancl [rotated])
    then show ?thesis using Return_True by (simp add: path_loop.simps)
  next
    case (Continue st)
    obtain visited' q' where st: "st = (visited', q')" by (cases st)
    have res: "length visited' = length visited"
        "\<forall>v<length visited.
           visited' ! v = (visited ! v \<or> (v \<in> set [0..<length visited] \<and> adj ! cur ! v > 0))"
        "set q' = set q \<union> {v \<in> set [0..<length visited]. adj ! cur ! v > 0 \<and> \<not> visited ! v}"
        "dest \<in> set [0..<length visited] \<and> adj ! cur ! dest > 0 \<longrightarrow> visited ! dest"
      using row Continue st by simp_all
    have inv': "search_inv adj src visited' q'"
    proof (rule search_inv_step [OF "2.prems"(1) res(1)])
      show "\<forall>v<length visited.
          visited' ! v = (visited ! v \<or> (v < length adj \<and> adj ! cur ! v > 0))"
        using res(2) len by simp
      show "set q' = set q \<union> {v. v < length adj \<and> adj ! cur ! v > 0 \<and> \<not> visited ! v}"
        using res(3) len by auto
    qed
    have nd: "\<not> visited' ! dest"
      using res(2,4) "2.prems"(2,3) len by auto
    have "path_loop adj dest visited (cur # q) = path_loop adj dest visited' q'"
      using Continue st by (simp add: path_loop.simps)
    then show ?thesis
      using "2.IH" [OF Continue st [symmetric] inv' "2.prems"(2) nd] by simp
  qed
qed

text \<open>
  \<^verbatim>\<open>is_path_exists\<close> holds exactly when both indices are in range and a directed path
  leads from the source to the destination.
\<close>

definition directed_path :: "int list list \<Rightarrow> int \<Rightarrow> int \<Rightarrow> bool" where
  "directed_path adj src dest =
     (0 \<le> src \<and> src < int (length adj) \<and> 0 \<le> dest \<and> dest < int (length adj)
      \<and> (nat src, nat dest) \<in> (edges adj)\<^sup>*)"

lemma is_path_exists_iff: "is_path_exists adj src dest = directed_path adj src dest"
proof (cases "0 \<le> src \<and> src < int (length adj) \<and> 0 \<le> dest \<and> dest < int (length adj)")
  case False
  then show ?thesis by (auto simp: is_path_exists_def directed_path_def)
next
  case True
  show ?thesis
  proof (cases "src = dest")
    case e: True
    then show ?thesis using True by (simp add: is_path_exists_def directed_path_def)
  next
    case e: False
    let ?n = "length adj"
    let ?s = "nat src"
    let ?d = "nat dest"
    let ?v0 = "(replicate ?n False)[?s := True]"
    have s: "?s < ?n" and d: "?d < ?n" and ne: "?s \<noteq> ?d" using True e by auto
    have v0: "?v0 ! v = (v = ?s)" if "v < ?n" for v
      using that s by (cases "v = ?s") simp_all
    have inv: "search_inv adj ?s ?v0 [?s]"
      using s v0 by (auto simp: search_inv_def)
    have "\<not> ?v0 ! ?d" using v0 [OF d] ne by simp
    from path_loop_iff [OF inv d this] show ?thesis
      using True e by (simp add: is_path_exists_def directed_path_def Let_def)
  qed
qed

lemma are_destinations_reachable_iff:
  "are_destinations_reachable adj dests =
     list_all (\<lambda>p. directed_path adj (fst p) (snd p)) dests"
  by (induction dests) (simp_all add: is_path_exists_iff)

lemma check_capacities_iff:
  "(check_capacities ns = INPUT_VALID) = list_all (\<lambda>nd. 0 < sint (capacity nd)) ns"
  "(check_capacities ns = INVALID_CAPACITY) = (\<not> list_all (\<lambda>nd. 0 < sint (capacity nd)) ns)"
  by (induction ns) (auto simp: word_sle_eq)

section \<open>Validator correctness\<close>

text \<open>Every node is reachable from node 0 along directed edges (and node 0 exists).\<close>

definition rooted :: "int list list \<Rightarrow> bool" where
  "rooted adj = (0 < length adj \<and> (\<forall>v<length adj. (0, v) \<in> (edges adj)\<^sup>*))"

definition one_way :: "int list list" where
  "one_way = [[0, 0], [1, 0]]"

definition two_way :: "int list list" where
  "two_way = [[0, 1], [1, 0]]"

definition two_nodes :: "NodeData list" where
  "two_nodes = [NodeData_init 0 CHR ''A'' WAIT_NODE 5, NodeData_init 1 CHR ''B'' WAIT_NODE 5]"

lemma one_way_disconnected: "\<not> is_graph_connected one_way"
  by (simp add: is_graph_connected_def one_way_def dfs_loop.simps upt_rec [of 0] upt_rec [of 1]
      upt_rec [of 2])

lemma two_way_valid: "validate_input two_way two_nodes [(0, 1)] = INPUT_VALID"
proof -
  have "is_graph_connected two_way"
    by (simp add: is_graph_connected_def two_way_def dfs_loop.simps upt_rec [of 0]
        upt_rec [of 1] upt_rec [of 2])
  moreover have "is_path_exists two_way 0 1"
    by (simp add: is_path_exists_def two_way_def path_loop.simps upt_rec [of 0]
        upt_rec [of 1] upt_rec [of 2])
  ultimately show ?thesis
    by (simp add: validate_input_def two_nodes_def NodeData_init_def word_sle_eq)
qed

text \<open>
  The one edge of \<open>one_way\<close> leads from node 1 to node 0. Read as an undirected graph it
  is connected, there is no destination pair and the capacities are positive, yet the
  validator answers DISCONNECTED_GRAPH.
\<close>

theorem validate_input_counterexample:
  "square one_way
   \<and> (0, 0) \<in> (undirected_edges one_way)\<^sup>*
   \<and> (0, 1) \<in> (undirected_edges one_way)\<^sup>*
   \<and> list_all (\<lambda>nd. 0 < sint (capacity nd)) two_nodes
   \<and> validate_input one_way two_nodes [] = DISCONNECTED_GRAPH"
proof -
  have "(1, 0) \<in> edges one_way"
    by (simp add: edges_def one_way_def)
  then have "(0, 1) \<in> undirected_edges one_way"
    by (simp add: undirected_edges_def)
  then have "(0, 1) \<in> (undirected_edges one_way)\<^sup>*" by (rule r_into_rtrancl)
  moreover have "square one_way" by (simp add: square_def one_way_def)
  moreover have "list_all (\<lambda>nd. 0 < sint (capacity nd)) two_nodes"
    by (simp add: two_nodes_def NodeData_init_def)
  moreover have "validate_input one_way two_nodes [] = DISCONNECTED_GRAPH"
    using one_way_disconnected by (simp add: validate_input_def)
  ultimately show ?thesis by simp
qed

text \<open>
  C2 (amended). For a square adjacency matrix, \<open>validate_input\<close> returns INPUT_VALID if
  and only if (1) there is a node 0 and every node is reachable from it along directed
  edges, (2) for every (source, destination) pair of the destinations map both indices
  are node indices and a directed path leads from the source to the destination, and (3)
  every node's capacity is positive. The checks run in that order and the first one that
  fails determines the result: DISCONNECTED_GRAPH, then UNREACHABLE_DESTINATION, then
  INVALID_CAPACITY.
\<close>

theorem validate_input_correct:
  assumes "square adj"
  shows "(validate_input adj ns dests = INPUT_VALID) =
           (rooted adj
            \<and> list_all (\<lambda>p. directed_path adj (fst p) (snd p)) dests
            \<and> list_all (\<lambda>nd. 0 < sint (capacity nd)) ns)
       \<and> (validate_input adj ns dests = DISCONNECTED_GRAPH) = (\<not> rooted adj)
       \<and> (validate_input adj ns dests = UNREACHABLE_DESTINATION) =
           (rooted adj \<and> \<not> list_all (\<lambda>p. directed_path adj (fst p) (snd p)) dests)
       \<and> (validate_input adj ns dests = INVALID_CAPACITY) =
           (rooted adj
            \<and> list_all (\<lambda>p. directed_path adj (fst p) (snd p)) dests
            \<and> \<not> list_all (\<lambda>nd. 0 < sint (capacity nd)) ns)"
proof -
  have g: "is_graph_connected adj = rooted adj"
    by (simp add: is_graph_connected_iff rooted_def)
  have d: "are_destinations_reachable adj dests
      = list_all (\<lambda>p. directed_path adj (fst p) (snd p)) dests"
    by (rule are_destinations_reachable_iff)
  note c = check_capacities_iff [of ns]
  have o: "check_capacities ns = INPUT_VALID \<or> check_capacities ns = INVALID_CAPACITY"
    by (rule check_capacities_outcomes)
  show ?thesis
    unfolding validate_input_def g d using c o by auto
qed

theorem validate_input_correct_witness:
  "square two_way
   \<and> validate_input two_way two_nodes [(0, 1)] = INPUT_VALID
   \<and> rooted two_way
   \<and> directed_path two_way 0 1"
proof -
  have s: "square two_way" by (simp add: square_def two_way_def)
  from validate_input_correct [OF s, of two_nodes "[(0, 1)]"] two_way_valid s
  show ?thesis by simp
qed

section \<open>Shortest routes in the node graph\<close>

text \<open>
  The directed edges given by the adjacency lists, and the nodes reached from \<open>s\<close> in
  exactly \<open>k\<close> hops.
\<close>

definition hop_edge :: "NodeData list \<Rightarrow> nat \<Rightarrow> nat \<Rightarrow> bool" where
  "hop_edge ns u w = (u < length ns \<and> w < length ns \<and> w \<in> set (adjacent_nodes (ns ! u)))"

inductive hops :: "NodeData list \<Rightarrow> nat \<Rightarrow> nat \<Rightarrow> nat \<Rightarrow> bool" for ns :: "NodeData list" and s :: nat where
  start: "s < length ns \<Longrightarrow> hops ns s 0 s"
| step: "hops ns s k u \<Longrightarrow> hop_edge ns u w \<Longrightarrow> hops ns s (Suc k) w"

definition hop_dist :: "NodeData list \<Rightarrow> nat \<Rightarrow> nat \<Rightarrow> nat" where
  "hop_dist ns s v = (LEAST k. hops ns s k v)"

lemma hops_in_range: "hops ns s k v \<Longrightarrow> v < length ns"
  by (induction rule: hops.induct) (simp_all add: hop_edge_def)

lemma hops_dist: "hops ns s k v \<Longrightarrow> hops ns s (hop_dist ns s v) v"
  unfolding hop_dist_def by (rule LeastI)

lemma hop_dist_le: "hops ns s k v \<Longrightarrow> hop_dist ns s v \<le> k"
  unfolding hop_dist_def by (rule Least_le)

lemma hop_dist_start: "s < length ns \<Longrightarrow> hop_dist ns s s = 0"
  using hop_dist_le [OF hops.start] by simp

lemma hop_dist_edge:
  assumes "hops ns s k u" and "hop_edge ns u w"
  shows "hop_dist ns s w \<le> Suc (hop_dist ns s u)"
  using hop_dist_le [OF hops.step [OF hops_dist [OF assms(1)] assms(2)]] .

lemma hops_last_edge:
  assumes "hops ns s k w" and "w \<noteq> s"
  shows "\<exists>u j. hops ns s j u \<and> hop_edge ns u w \<and> hop_dist ns s w = Suc (hop_dist ns s u)"
proof -
  have "hops ns s (hop_dist ns s w) w" using assms(1) by (rule hops_dist)
  then show ?thesis
  proof (cases rule: hops.cases)
    case start
    then show ?thesis using assms(2) by simp
  next
    case (step j u)
    have "hop_dist ns s u \<le> j" using step(2) by (rule hop_dist_le)
    moreover have "hop_dist ns s w \<le> Suc (hop_dist ns s u)"
      using step(2,3) by (rule hop_dist_edge)
    ultimately have "hop_dist ns s w = Suc (hop_dist ns s u)" using step(1) by simp
    then show ?thesis using step(2,3) by blast
  qed
qed

text \<open>What the inner loop of the router's breadth-first search leaves behind.\<close>

lemma bfs_neighbors_result:
  assumes "length parent = length visited"
    and "bfs_neighbors cur nbs (parent, visited, q) = (parent', visited', q')"
  shows "length visited' = length visited \<and> length parent' = length visited
       \<and> (\<forall>v<length visited. visited' ! v = (visited ! v \<or> v \<in> set nbs))
       \<and> (\<forall>v<length visited.
             parent' ! v = (if \<not> visited ! v \<and> v \<in> set nbs then int cur else parent ! v))
       \<and> (\<exists>new. q' = q @ new \<and> distinct new
             \<and> set new = {v \<in> set nbs. v < length visited \<and> \<not> visited ! v})"
  using assms
proof (induction nbs arbitrary: parent visited q)
  case Nil
  then show ?case by simp
next
  case (Cons nb nbs)
  show ?case
  proof (cases "nb < length visited \<and> \<not> visited ! nb")
    case True
    let ?p1 = "parent[nb := int cur]"
    let ?v1 = "visited[nb := True]"
    have run: "bfs_neighbors cur nbs (?p1, ?v1, q @ [nb]) = (parent', visited', q')"
      using Cons.prems(2) True by simp
    have l1: "length ?p1 = length ?v1" using Cons.prems(1) by simp
    note ih = Cons.IH [OF l1 run]
    have len: "length visited' = length visited" "length parent' = length visited"
      using ih by simp_all
    have v: "\<forall>v<length visited. visited' ! v = (visited ! v \<or> v \<in> set (nb # nbs))"
    proof (intro allI impI)
      fix v assume vl: "v < length visited"
      then have "visited' ! v = (?v1 ! v \<or> v \<in> set nbs)" using ih by simp
      then show "visited' ! v = (visited ! v \<or> v \<in> set (nb # nbs))"
        using vl True by (cases "v = nb") (auto simp: nth_list_update)
    qed
    have p: "\<forall>v<length visited.
        parent' ! v = (if \<not> visited ! v \<and> v \<in> set (nb # nbs) then int cur else parent ! v)"
    proof (intro allI impI)
      fix v assume vl: "v < length visited"
      then have "parent' ! v = (if \<not> ?v1 ! v \<and> v \<in> set nbs then int cur else ?p1 ! v)"
        using ih by simp
      then show "parent' ! v
          = (if \<not> visited ! v \<and> v \<in> set (nb # nbs) then int cur else parent ! v)"
        using vl True Cons.prems(1) by (cases "v = nb") (auto simp: nth_list_update)
    qed
    obtain new where new: "q' = (q @ [nb]) @ new" "distinct new"
        "set new = {v \<in> set nbs. v < length ?v1 \<and> \<not> ?v1 ! v}"
      using ih by blast
    have nbn: "nb \<notin> set new" using new(3) True by simp
    have "set (nb # new) = {v \<in> set (nb # nbs). v < length visited \<and> \<not> visited ! v}"
    proof -
      have "(v < length ?v1 \<and> \<not> ?v1 ! v) = (v < length visited \<and> \<not> visited ! v \<and> v \<noteq> nb)"
        for v
        by (cases "v = nb") (auto simp: nth_list_update)
      then show ?thesis using new(3) True by auto
    qed
    then have "\<exists>new'. q' = q @ new' \<and> distinct new'
        \<and> set new' = {v \<in> set (nb # nbs). v < length visited \<and> \<not> visited ! v}"
      using new(1,2) nbn by (intro exI [of _ "nb # new"]) simp
    then show ?thesis using len v p by blast
  next
    case False
    then have run: "bfs_neighbors cur nbs (parent, visited, q) = (parent', visited', q')"
      using Cons.prems(2) by auto
    note ih = Cons.IH [OF Cons.prems(1) run]
    have v: "\<forall>v<length visited. visited' ! v = (visited ! v \<or> v \<in> set (nb # nbs))"
      using ih False by auto
    have p: "\<forall>v<length visited.
        parent' ! v = (if \<not> visited ! v \<and> v \<in> set (nb # nbs) then int cur else parent ! v)"
      using ih False by auto
    have "{v \<in> set (nb # nbs). v < length visited \<and> \<not> visited ! v}
        = {v \<in> set nbs. v < length visited \<and> \<not> visited ! v}"
      using False by auto
    then have "\<exists>new. q' = q @ new \<and> distinct new
        \<and> set new = {v \<in> set (nb # nbs). v < length visited \<and> \<not> visited ! v}"
      using ih by simp
    then show ?thesis using ih v p by blast
  qed
qed

text \<open>
  The invariant of the router's breadth-first search from \<open>s\<close> towards \<open>dest\<close>, at the
  head of the \<^verbatim>\<open>while\<close> loop: marked nodes are reachable, each marked node other than
  \<open>s\<close> has a marked parent one hop closer to \<open>s\<close>, every marked node outside the queue
  has been dequeued (its successors are marked and it is not the destination), the queue
  is ordered by distance and spans at most two distances, and every node closer to \<open>s\<close>
  than the head of the queue is marked.
\<close>

definition bfs_inv ::
  "NodeData list \<Rightarrow> nat \<Rightarrow> int \<Rightarrow> int list \<Rightarrow> bool list \<Rightarrow> nat list \<Rightarrow> bool" where
  "bfs_inv ns s dest parent visited q =
     (length visited = length ns \<and> length parent = length ns \<and> s < length ns
      \<and> visited ! s \<and> parent ! s = - 1
      \<and> distinct q \<and> (\<forall>v\<in>set q. v < length ns \<and> visited ! v)
      \<and> (\<forall>v<length ns. visited ! v \<longrightarrow> (\<exists>k. hops ns s k v))
      \<and> (\<forall>v<length ns. visited ! v \<and> v \<noteq> s \<longrightarrow>
            (\<exists>p<length ns. parent ! v = int p \<and> visited ! p \<and> hop_edge ns p v
                \<and> hop_dist ns s v = Suc (hop_dist ns s p)))
      \<and> (\<forall>u<length ns. visited ! u \<and> u \<notin> set q \<longrightarrow>
            (\<forall>w. hop_edge ns u w \<longrightarrow> visited ! w))
      \<and> (\<forall>u<length ns. visited ! u \<and> u \<notin> set q \<longrightarrow> int u \<noteq> dest)
      \<and> sorted (map (hop_dist ns s) q)
      \<and> (q \<noteq> [] \<longrightarrow> hop_dist ns s (last q) \<le> Suc (hop_dist ns s (hd q)))
      \<and> (q \<noteq> [] \<longrightarrow>
            (\<forall>v k. hops ns s k v \<and> hop_dist ns s v < hop_dist ns s (hd q) \<longrightarrow> visited ! v)))"

lemma sorted_le_last:
  "sorted (map f xs) \<Longrightarrow> x \<in> set xs \<Longrightarrow> f x \<le> f (last xs)"
proof (induction xs)
  case Nil
  then show ?case by simp
next
  case (Cons a xs)
  show ?case
  proof (cases "xs = []")
    case True
    then show ?thesis using Cons.prems by simp
  next
    case False
    then have l: "last xs \<in> set xs" by simp
    show ?thesis
    proof (cases "x = a")
      case True
      then show ?thesis using Cons.prems(1) False l by auto
    next
      case x: False
      then show ?thesis using Cons False by auto
    qed
  qed
qed

lemma sorted_map_const:
  "\<forall>x\<in>set xs. f x = (c::nat) \<Longrightarrow> sorted (map f xs)"
  by (induction xs) auto

lemma bfs_inv_parts:
  assumes "bfs_inv ns s dest parent visited q"
  shows "length visited = length ns" and "length parent = length ns" and "s < length ns"
    and "visited ! s" and "parent ! s = - 1"
    and "distinct q" and "\<forall>v\<in>set q. v < length ns \<and> visited ! v"
    and "\<forall>v<length ns. visited ! v \<longrightarrow> (\<exists>k. hops ns s k v)"
    and "\<forall>v<length ns. visited ! v \<and> v \<noteq> s \<longrightarrow>
            (\<exists>p<length ns. parent ! v = int p \<and> visited ! p \<and> hop_edge ns p v
                \<and> hop_dist ns s v = Suc (hop_dist ns s p))"
    and "\<forall>u<length ns. visited ! u \<and> u \<notin> set q \<longrightarrow>
            (\<forall>w. hop_edge ns u w \<longrightarrow> visited ! w)"
    and "\<forall>u<length ns. visited ! u \<and> u \<notin> set q \<longrightarrow> int u \<noteq> dest"
    and "sorted (map (hop_dist ns s) q)"
    and "q \<noteq> [] \<longrightarrow> hop_dist ns s (last q) \<le> Suc (hop_dist ns s (hd q))"
    and "q \<noteq> [] \<longrightarrow>
            (\<forall>v k. hops ns s k v \<and> hop_dist ns s v < hop_dist ns s (hd q) \<longrightarrow> visited ! v)"
proof -
  note I = assms [unfolded bfs_inv_def]
  show "length visited = length ns" using I by (elim conjE)
  show "length parent = length ns" using I by (elim conjE)
  show "s < length ns" using I by (elim conjE)
  show "visited ! s" using I by (elim conjE)
  show "parent ! s = - 1" using I by (elim conjE)
  show "distinct q" using I by (elim conjE)
  show "\<forall>v\<in>set q. v < length ns \<and> visited ! v" using I by (elim conjE)
  show "\<forall>v<length ns. visited ! v \<longrightarrow> (\<exists>k. hops ns s k v)" using I by (elim conjE)
  show "\<forall>v<length ns. visited ! v \<and> v \<noteq> s \<longrightarrow>
            (\<exists>p<length ns. parent ! v = int p \<and> visited ! p \<and> hop_edge ns p v
                \<and> hop_dist ns s v = Suc (hop_dist ns s p))" using I by (elim conjE)
  show "\<forall>u<length ns. visited ! u \<and> u \<notin> set q \<longrightarrow>
            (\<forall>w. hop_edge ns u w \<longrightarrow> visited ! w)" using I by (elim conjE)
  show "\<forall>u<length ns. visited ! u \<and> u \<notin> set q \<longrightarrow> int u \<noteq> dest" using I by (elim conjE)
  show "sorted (map (hop_dist ns s) q)" using I by (elim conjE)
  show "q \<noteq> [] \<longrightarrow> hop_dist ns s (last q) \<le> Suc (hop_dist ns s (hd q))"
    using I by (elim conjE)
  show "q \<noteq> [] \<longrightarrow>
            (\<forall>v k. hops ns s k v \<and> hop_dist ns s v < hop_dist ns s (hd q) \<longrightarrow> visited ! v)"
    using I by (elim conjE)
qed

lemma bfs_inv_intro:
  assumes "length visited = length ns" and "length parent = length ns" and "s < length ns"
    and "visited ! s" and "parent ! s = - 1"
    and "distinct q" and "\<forall>v\<in>set q. v < length ns \<and> visited ! v"
    and "\<forall>v<length ns. visited ! v \<longrightarrow> (\<exists>k. hops ns s k v)"
    and "\<forall>v<length ns. visited ! v \<and> v \<noteq> s \<longrightarrow>
            (\<exists>p<length ns. parent ! v = int p \<and> visited ! p \<and> hop_edge ns p v
                \<and> hop_dist ns s v = Suc (hop_dist ns s p))"
    and "\<forall>u<length ns. visited ! u \<and> u \<notin> set q \<longrightarrow>
            (\<forall>w. hop_edge ns u w \<longrightarrow> visited ! w)"
    and "\<forall>u<length ns. visited ! u \<and> u \<notin> set q \<longrightarrow> int u \<noteq> dest"
    and "sorted (map (hop_dist ns s) q)"
    and "q \<noteq> [] \<longrightarrow> hop_dist ns s (last q) \<le> Suc (hop_dist ns s (hd q))"
    and "q \<noteq> [] \<longrightarrow>
            (\<forall>v k. hops ns s k v \<and> hop_dist ns s v < hop_dist ns s (hd q) \<longrightarrow> visited ! v)"
  shows "bfs_inv ns s dest parent visited q"
  unfolding bfs_inv_def by (intro conjI) (rule assms)+

lemma bfs_inv_step:
  assumes inv: "bfs_inv ns s dest parent visited (cur # rest)"
    and nd: "int cur \<noteq> dest"
    and run: "bfs_neighbors cur (adjacent_nodes (ns ! cur)) (parent, visited, rest)
                = (parent', visited', q')"
  shows "bfs_inv ns s dest parent' visited' q'"
proof -
  let ?n = "length ns"
  let ?d = "hop_dist ns s"
  let ?nbs = "adjacent_nodes (ns ! cur)"
  have lv: "length visited = ?n" and lp: "length parent = ?n" and s: "s < ?n"
    and vs: "visited ! s" and ps: "parent ! s = - 1"
    and dq: "distinct (cur # rest)"
    and qv: "\<forall>v\<in>set (cur # rest). v < ?n \<and> visited ! v"
    and V: "\<forall>v<?n. visited ! v \<longrightarrow> (\<exists>k. hops ns s k v)"
    and Pa: "\<forall>v<?n. visited ! v \<and> v \<noteq> s \<longrightarrow>
            (\<exists>p<?n. parent ! v = int p \<and> visited ! p \<and> hop_edge ns p v
                \<and> ?d v = Suc (?d p))"
    and C: "\<forall>u<?n. visited ! u \<and> u \<notin> set (cur # rest) \<longrightarrow>
            (\<forall>w. hop_edge ns u w \<longrightarrow> visited ! w)"
    and X: "\<forall>u<?n. visited ! u \<and> u \<notin> set (cur # rest) \<longrightarrow> int u \<noteq> dest"
    and S: "sorted (map ?d (cur # rest))"
    using bfs_inv_parts(1-12) [OF inv] by simp_all
  have L: "?d (last (cur # rest)) \<le> Suc (?d cur)"
    using bfs_inv_parts(13) [OF inv] by simp
  have F: "\<forall>v k. hops ns s k v \<and> ?d v < ?d cur \<longrightarrow> visited ! v"
    using bfs_inv_parts(14) [OF inv] by simp
  have cur: "cur < ?n" "visited ! cur" using qv by simp_all
  obtain kc where kc: "hops ns s kc cur" using V cur by blast
  have res: "length visited' = ?n" "length parent' = ?n"
      "\<forall>v<?n. visited' ! v = (visited ! v \<or> v \<in> set ?nbs)"
      "\<forall>v<?n. parent' ! v = (if \<not> visited ! v \<and> v \<in> set ?nbs then int cur else parent ! v)"
    using bfs_neighbors_result [OF _ run] lv lp by simp_all
  obtain new where new: "q' = rest @ new" "distinct new"
      "set new = {v \<in> set ?nbs. v < ?n \<and> \<not> visited ! v}"
    using bfs_neighbors_result [OF _ run] lv lp by auto
  have new_edge: "hop_edge ns cur w \<and> \<not> visited ! w \<and> w < ?n" if "w \<in> set new" for w
    using that new(3) cur by (simp add: hop_edge_def)
  have edge_vis: "visited' ! w" if "hop_edge ns cur w" for w
    using that res(3) by (simp add: hop_edge_def)
  have min_q: "?d cur \<le> ?d x" if "x \<in> set (cur # rest)" for x
    using S that by auto
  \<comment> \<open>a node closer to \<open>s\<close> than \<open>cur\<close> has been dequeued\<close>
  have closer: "visited ! u \<and> u \<notin> set (cur # rest)" if "hops ns s k u" "?d u < ?d cur" for u k
  proof -
    have "visited ! u" using F that by blast
    moreover have "u \<notin> set (cur # rest)" using min_q [of u] that(2) by auto
    ultimately show ?thesis by simp
  qed
  \<comment> \<open>so a node at the distance of \<open>cur\<close> or less is marked\<close>
  have near: "visited ! v" if hv: "hops ns s k v" and le: "?d v \<le> ?d cur" for v k
  proof (cases "v = s")
    case True
    then show ?thesis using vs by simp
  next
    case False
    obtain u j where u: "hops ns s j u" "hop_edge ns u v" "?d v = Suc (?d u)"
      using hops_last_edge [OF hv False] by blast
    have "?d u < ?d cur" using u(3) le by simp
    then have "visited ! u \<and> u \<notin> set (cur # rest)" using closer u(1) by blast
    moreover have "u < ?n" using u(1) by (rule hops_in_range)
    ultimately show ?thesis using C u(2) by blast
  qed
  \<comment> \<open>hence the new nodes are exactly one hop farther than \<open>cur\<close>\<close>
  have new_dist: "?d w = Suc (?d cur)" if "w \<in> set new" for w
  proof -
    have e: "hop_edge ns cur w" and nv: "\<not> visited ! w" using new_edge that by simp_all
    have hw: "hops ns s (Suc kc) w" using kc e by (rule hops.step)
    have "?d w \<le> Suc (?d cur)" using kc e by (rule hop_dist_edge)
    moreover have "\<not> ?d w \<le> ?d cur" using near [OF hw] nv by blast
    ultimately show ?thesis by simp
  qed
  have rest_bound: "?d x \<le> Suc (?d cur)" if "x \<in> set rest" for x
  proof -
    have "x \<in> set (cur # rest)" using that by simp
    from sorted_le_last [OF S this] L show ?thesis by simp
  qed
  have q'_bound: "?d x \<le> Suc (?d cur)" if "x \<in> set q'" for x
    using that new(1) rest_bound new_dist by auto
  have q'_lower: "?d cur \<le> ?d x" if "x \<in> set q'" for x
    using that new(1) min_q new_dist by auto
  have 1: "distinct q'"
    using dq new qv by auto
  have 2: "\<forall>v\<in>set q'. v < ?n \<and> visited' ! v"
    using new qv res(3) by auto
  have 3: "\<forall>v<?n. visited' ! v \<longrightarrow> (\<exists>k. hops ns s k v)"
  proof (intro allI impI)
    fix v assume vn: "v < ?n" and vv: "visited' ! v"
    show "\<exists>k. hops ns s k v"
    proof (cases "visited ! v")
      case True
      then show ?thesis using V vn by simp
    next
      case False
      then have "v \<in> set ?nbs" using vv res(3) vn by simp
      then have "hop_edge ns cur v" using cur vn by (simp add: hop_edge_def)
      then show ?thesis using kc hops.step by blast
    qed
  qed
  have 4: "\<forall>v<?n. visited' ! v \<and> v \<noteq> s \<longrightarrow>
            (\<exists>p<?n. parent' ! v = int p \<and> visited' ! p \<and> hop_edge ns p v
                \<and> ?d v = Suc (?d p))"
  proof (intro allI impI)
    fix v assume vn: "v < ?n" and vv: "visited' ! v \<and> v \<noteq> s"
    show "\<exists>p<?n. parent' ! v = int p \<and> visited' ! p \<and> hop_edge ns p v \<and> ?d v = Suc (?d p)"
    proof (cases "visited ! v")
      case True
      then obtain p where p: "p < ?n" "parent ! v = int p" "visited ! p" "hop_edge ns p v"
          "?d v = Suc (?d p)"
        using Pa vn vv by blast
      have "parent' ! v = int p" using res(4) vn True p(2) by simp
      moreover have "visited' ! p" using res(3) p(1,3) by simp
      ultimately show ?thesis using p by blast
    next
      case False
      then have m: "v \<in> set new" using vv res(3) vn new(3) by simp
      have "parent' ! v = int cur" using res(4) vn False m new(3) by simp
      moreover have "visited' ! cur" using res(3) cur by simp
      ultimately show ?thesis
        using cur(1) new_edge [OF m] new_dist [OF m] by blast
    qed
  qed
  have old: "visited ! u \<and> u \<notin> set (cur # rest) \<or> u = cur"
    if "u < ?n" "visited' ! u" "u \<notin> set q'" for u
  proof (cases "visited ! u")
    case True
    then show ?thesis using that(3) new(1) by auto
  next
    case False
    then have "u \<in> set new" using that(1,2) res(3) new(3) by simp
    then show ?thesis using that(3) new(1) by simp
  qed
  have 5: "\<forall>u<?n. visited' ! u \<and> u \<notin> set q' \<longrightarrow> (\<forall>w. hop_edge ns u w \<longrightarrow> visited' ! w)"
  proof (intro allI impI)
    fix u w assume un: "u < ?n" and u: "visited' ! u \<and> u \<notin> set q'" and e: "hop_edge ns u w"
    have wn: "w < ?n" using e by (simp add: hop_edge_def)
    from old [OF un] u consider "visited ! u \<and> u \<notin> set (cur # rest)" | "u = cur" by blast
    then show "visited' ! w"
    proof cases
      case 1
      then have "visited ! w" using C un e by blast
      then show ?thesis using res(3) wn by simp
    next
      case 2
      then show ?thesis using e edge_vis by simp
    qed
  qed
  have 6: "\<forall>u<?n. visited' ! u \<and> u \<notin> set q' \<longrightarrow> int u \<noteq> dest"
  proof (intro allI impI)
    fix u assume un: "u < ?n" and u: "visited' ! u \<and> u \<notin> set q'"
    from old [OF un] u consider "visited ! u \<and> u \<notin> set (cur # rest)" | "u = cur" by blast
    then show "int u \<noteq> dest"
    proof cases
      case 1
      then show ?thesis using X un by blast
    next
      case 2
      then show ?thesis using nd by simp
    qed
  qed
  have 7: "sorted (map ?d q')"
  proof -
    have "sorted (map ?d rest)" using S by simp
    moreover have "sorted (map ?d new)"
      using new_dist by (intro sorted_map_const [of _ _ "Suc (?d cur)"]) simp
    moreover have "\<forall>x\<in>set rest. \<forall>y\<in>set new. ?d x \<le> ?d y"
      using rest_bound new_dist by simp
    ultimately show ?thesis using new(1) by (simp add: sorted_append)
  qed
  have 8: "q' \<noteq> [] \<longrightarrow> ?d (last q') \<le> Suc (?d (hd q'))"
  proof
    assume ne: "q' \<noteq> []"
    then have "last q' \<in> set q'" "hd q' \<in> set q'" by simp_all
    then show "?d (last q') \<le> Suc (?d (hd q'))"
      using q'_bound [of "last q'"] q'_lower [of "hd q'"] by simp
  qed
  have 9: "q' \<noteq> [] \<longrightarrow>
      (\<forall>v k. hops ns s k v \<and> ?d v < ?d (hd q') \<longrightarrow> visited' ! v)"
  proof (intro impI allI)
    fix v k assume ne: "q' \<noteq> []" and h: "hops ns s k v \<and> ?d v < ?d (hd q')"
    have "hd q' \<in> set q'" using ne by simp
    then have "?d v \<le> ?d cur" using q'_bound [of "hd q'"] h by simp
    then have "visited ! v" using near h by blast
    moreover have "v < ?n" using h hops_in_range by blast
    ultimately show "visited' ! v" using res(3) by simp
  qed
  have vs': "visited' ! s" using res(3) s vs by simp
  have ps': "parent' ! s = - 1" using res(4) s vs ps by simp
  show ?thesis
    by (rule bfs_inv_intro [OF res(1,2) s vs' ps' 1 2 3 4 5 6 7 8 9])
qed

lemma bfs_inv_init:
  assumes "s < length ns"
  shows "bfs_inv ns s dest (replicate (length ns) (- 1))
           ((replicate (length ns) False)[s := True]) [s]"
proof -
  let ?n = "length ns"
  let ?v0 = "(replicate ?n False)[s := True]"
  have v0: "?v0 ! v = (v = s)" if "v < ?n" for v
    using that assms by (cases "v = s") simp_all
  have h0: "hops ns s 0 s" using assms by (rule hops.start)
  show ?thesis
  proof (rule bfs_inv_intro)
    show "length ?v0 = ?n" by simp
    show "length (replicate ?n (- 1 :: int)) = ?n" by simp
    show "s < ?n" by (rule assms)
    show "?v0 ! s" using v0 assms by simp
    show "replicate ?n (- 1 :: int) ! s = - 1" using assms by simp
    show "distinct [s]" by simp
    show "\<forall>v\<in>set [s]. v < ?n \<and> ?v0 ! v" using v0 assms by simp
    show "\<forall>v<?n. ?v0 ! v \<longrightarrow> (\<exists>k. hops ns s k v)" using v0 h0 by auto
    show "\<forall>v<?n. ?v0 ! v \<and> v \<noteq> s \<longrightarrow>
            (\<exists>p<?n. replicate ?n (- 1 :: int) ! v = int p \<and> ?v0 ! p \<and> hop_edge ns p v
                \<and> hop_dist ns s v = Suc (hop_dist ns s p))"
      using v0 by auto
    show "\<forall>u<?n. ?v0 ! u \<and> u \<notin> set [s] \<longrightarrow> (\<forall>w. hop_edge ns u w \<longrightarrow> ?v0 ! w)"
      using v0 by auto
    show "\<forall>u<?n. ?v0 ! u \<and> u \<notin> set [s] \<longrightarrow> int u \<noteq> dest" using v0 by auto
    show "sorted (map (hop_dist ns s) [s])" by simp
    show "[s] \<noteq> [] \<longrightarrow> hop_dist ns s (last [s]) \<le> Suc (hop_dist ns s (hd [s]))" by simp
    show "[s] \<noteq> [] \<longrightarrow>
        (\<forall>v k. hops ns s k v \<and> hop_dist ns s v < hop_dist ns s (hd [s]) \<longrightarrow> ?v0 ! v)"
      using hop_dist_start [OF assms] by simp
  qed
qed

text \<open>
  Under the invariant the walk back from a marked node ends: at the node itself if it
  is \<open>s\<close>, else at a neighbour of \<open>s\<close> from which the node is one hop less far.
\<close>

lemma first_hop_walk_result:
  assumes inv: "bfs_inv ns s dest parent visited q"
    and "v < length ns" and "visited ! v" and "v \<noteq> s"
  shows "\<exists>h k. first_hop_walk parent (int s) v = Some h \<and> hop_edge ns s h
           \<and> hops ns h k v \<and> Suc k = hop_dist ns s v"
  using assms(2-4)
proof (induction "hop_dist ns s v" arbitrary: v rule: less_induct)
  case less
  note Pa = bfs_inv_parts(9) [OF inv]
  obtain p where p: "p < length ns" "parent ! v = int p" "visited ! p" "hop_edge ns p v"
      "hop_dist ns s v = Suc (hop_dist ns s p)"
    using Pa less.prems by blast
  have vn: "hops ns v 0 v" using less.prems(1) by (rule hops.start)
  show ?case
  proof (cases "p = s")
    case True
    have "first_hop_walk parent (int s) v = Some v"
      using p(2) True by (subst first_hop_walk.simps) simp
    moreover have "hop_dist ns s s = 0"
      using bfs_inv_parts(3) [OF inv] by (rule hop_dist_start)
    ultimately show ?thesis using p(4,5) True vn by auto
  next
    case False
    have "first_hop_walk parent (int s) v = first_hop_walk parent (int s) p"
      using p(2) False by (subst first_hop_walk.simps) simp
    moreover obtain h k where "first_hop_walk parent (int s) p = Some h" "hop_edge ns s h"
        "hops ns h k p" "Suc k = hop_dist ns s p"
      using less.hyps [of p] p False by auto
    moreover have "hops ns h (Suc k) v"
      using \<open>hops ns h k p\<close> p(4) by (rule hops.step)
    ultimately show ?thesis using p(5) by auto
  qed
qed

lemma first_hop_walk_source:
  assumes "bfs_inv ns s dest parent visited q"
  shows "first_hop_walk parent (int s) s = Some s"
  using bfs_inv_parts(5) [OF assms] by (subst first_hop_walk.simps) simp

text \<open>The destination is some node reachable from \<open>s\<close>.\<close>

definition reachable_dest :: "NodeData list \<Rightarrow> nat \<Rightarrow> int \<Rightarrow> bool" where
  "reachable_dest ns s dest = (\<exists>t k. dest = int t \<and> hops ns s k t)"

lemma bfs_inv_closed:
  assumes inv: "bfs_inv ns s dest parent visited []" and "hops ns s k v"
  shows "visited ! v"
  using assms(2)
proof (induction rule: hops.induct)
  case (start)
  show ?case using bfs_inv_parts(4) [OF inv] .
next
  case (step k u w)
  have "u < length ns" using step.hyps(1) by (rule hops_in_range)
  then show ?case
    using bfs_inv_parts(10) [OF inv] step by simp
qed

declare bfs_loop.simps [simp del]

lemma bfs_loop_result:
  assumes "bfs_inv ns s dest parent visited q"
  shows "\<exists>r. bfs_loop ns s dest parent visited q = Some r \<and>
           (if reachable_dest ns s dest
            then (if dest = int s then r = int s
                  else (\<exists>h k. r = int h \<and> hop_edge ns s h \<and> hops ns h k (nat dest)
                          \<and> Suc k = hop_dist ns s (nat dest)))
            else r = int (hd (adjacent_nodes (ns ! s))))"
  using assms
proof (induction ns s dest parent visited q rule: bfs_loop.induct)
  case (1 ns s dest parent visited)
  have "\<not> reachable_dest ns s dest"
  proof
    assume "reachable_dest ns s dest"
    then obtain t k where t: "dest = int t" "hops ns s k t"
      by (auto simp: reachable_dest_def)
    have "visited ! t" using bfs_inv_closed [OF "1.prems" t(2)] .
    moreover have "t < length ns" using t(2) by (rule hops_in_range)
    ultimately have "int t \<noteq> dest"
      using bfs_inv_parts(11) [OF "1.prems"] by simp
    then show False using t(1) by simp
  qed
  then show ?case by (simp add: bfs_loop.simps)
next
  case (2 ns s dest parent visited cur q)
  have cur: "cur < length ns" "visited ! cur"
    using bfs_inv_parts(7) [OF "2.prems"] by simp_all
  show ?case
  proof (cases "int cur = dest")
    case True
    then have nd: "nat dest = cur" by auto
    obtain k where "hops ns s k cur"
      using bfs_inv_parts(8) [OF "2.prems"] cur by blast
    then have reach: "reachable_dest ns s dest"
      using True by (auto simp: reachable_dest_def)
    have run: "bfs_loop ns s dest parent visited (cur # q)
        = map_option int (first_hop_walk parent (int s) cur)"
      using True nd by (simp add: bfs_loop.simps)
    show ?thesis
    proof (cases "cur = s")
      case s: True
      then show ?thesis
        using run reach True first_hop_walk_source [OF "2.prems"] by auto
    next
      case s: False
      then have "dest \<noteq> int s" using True by auto
      then show ?thesis
        using run reach nd first_hop_walk_result [OF "2.prems" cur s] by auto
    qed
  next
    case False
    obtain parent' visited' q' where step:
      "bfs_neighbors cur (adjacent_nodes (ns ! cur)) (parent, visited, q)
         = (parent', visited', q')"
      by (cases "bfs_neighbors cur (adjacent_nodes (ns ! cur)) (parent, visited, q)")
    have inv': "bfs_inv ns s dest parent' visited' q'"
      by (rule bfs_inv_step [OF "2.prems" False step])
    have "bfs_loop ns s dest parent visited (cur # q) = bfs_loop ns s dest parent' visited' q'"
      using False step by (simp add: bfs_loop.simps)
    then show ?thesis
      using "2.IH" [OF False step [symmetric] refl inv'] by simp
  qed
qed

text \<open>
  The search of \<open>find_best_next_hop\<close> always comes back with a value: on the state it
  starts from the invariant holds, so every parent walk it can begin ends.
\<close>

lemma find_best_next_hop_search:
  assumes "from_node < length ns"
    and "adjacent_nodes (ns ! from_node) \<noteq> []"
    and "\<not> list_ex (\<lambda>adj. int adj = destination) (adjacent_nodes (ns ! from_node))"
  shows "\<exists>r. find_best_next_hop_run ns from_node destination = Some r \<and>
           (if reachable_dest ns from_node destination
            then (if destination = int from_node then r = int from_node
                  else (\<exists>h k. r = int h \<and> hop_edge ns from_node h
                          \<and> hops ns h k (nat destination)
                          \<and> Suc k = hop_dist ns from_node (nat destination)))
            else r = int (hd (adjacent_nodes (ns ! from_node))))"
proof -
  have "find_best_next_hop_run ns from_node destination
      = bfs_loop ns from_node destination (replicate (length ns) (- 1))
          ((replicate (length ns) False)[from_node := True]) [from_node]"
    using assms by (simp add: find_best_next_hop_run_def)
  then show ?thesis
    using bfs_loop_result [OF bfs_inv_init [OF assms(1)], of destination] by simp
qed

lemma find_best_next_hop_run_returns:
  "\<exists>r. find_best_next_hop_run ns from_node destination = Some r"
proof (cases "from_node < length ns \<and> adjacent_nodes (ns ! from_node) \<noteq> []
    \<and> \<not> list_ex (\<lambda>adj. int adj = destination) (adjacent_nodes (ns ! from_node))")
  case True
  then show ?thesis using find_best_next_hop_search [of from_node ns destination] by blast
next
  case False
  then show ?thesis by (auto simp: find_best_next_hop_run_def Let_def)
qed

text \<open>
  A route is a non-empty list of nodes in which each node has the next one in its
  adjacency list; it has one hop less than it has nodes. A shortest route from \<open>s\<close> to
  \<open>t\<close> is a route between them that no other route between them is shorter than.
\<close>

fun route :: "NodeData list \<Rightarrow> nat list \<Rightarrow> bool" where
  "route ns [] = False"
| "route ns [v] = (v < length ns)"
| "route ns (u # w # p) = (hop_edge ns u w \<and> route ns (w # p))"

definition shortest_route :: "NodeData list \<Rightarrow> nat \<Rightarrow> nat \<Rightarrow> nat list \<Rightarrow> bool" where
  "shortest_route ns s t p =
     (route ns p \<and> hd p = s \<and> last p = t
      \<and> (\<forall>p'. route ns p' \<and> hd p' = s \<and> last p' = t \<longrightarrow> length p \<le> length p'))"

definition well_formed :: "NodeData list \<Rightarrow> bool" where
  "well_formed ns = list_all (\<lambda>nd. list_all (\<lambda>w. w < length ns) (adjacent_nodes nd)) ns"

lemma route_snoc:
  "route ns p \<Longrightarrow> hop_edge ns (last p) w \<Longrightarrow> route ns (p @ [w])"
  by (induction ns p rule: route.induct) (auto simp: hop_edge_def)

lemma hops_route:
  "hops ns s k v \<Longrightarrow> \<exists>p. route ns p \<and> hd p = s \<and> last p = v \<and> length p = Suc k"
proof (induction rule: hops.induct)
  case start
  then have "route ns [s] \<and> hd [s] = s \<and> last [s] = s \<and> length [s] = Suc 0" by simp
  then show ?case by blast
next
  case (step k u w)
  then obtain p where p: "route ns p" "hd p = s" "last p = u" "length p = Suc k" by blast
  have ne: "p \<noteq> []" using p(4) by auto
  have "route ns (p @ [w])" using p(1,3) step.hyps(2) by (auto intro: route_snoc)
  moreover have "hd (p @ [w]) = s" using ne p(2) by simp
  ultimately have "route ns (p @ [w]) \<and> hd (p @ [w]) = s \<and> last (p @ [w]) = w
      \<and> length (p @ [w]) = Suc (Suc k)"
    using p(4) by simp
  then show ?case by blast
qed

lemma route_hops_from:
  "route ns (u # p) \<Longrightarrow> hops ns s k u \<Longrightarrow> hops ns s (k + length p) (last (u # p))"
proof (induction p arbitrary: u k)
  case Nil
  then show ?case by simp
next
  case (Cons w p)
  have e: "hop_edge ns u w" and r: "route ns (w # p)" using Cons.prems(1) by simp_all
  have "hops ns s (Suc k) w" using Cons.prems(2) e by (rule hops.step)
  from Cons.IH [OF r this] show ?case by simp
qed

lemma route_hops:
  assumes "route ns p"
  shows "hops ns (hd p) (length p - 1) (last p)"
proof (cases p)
  case Nil
  then show ?thesis using assms by simp
next
  case (Cons u p')
  have "u < length ns" using assms Cons by (cases p') (simp_all add: hop_edge_def)
  then have "hops ns u 0 u" by (rule hops.start)
  from route_hops_from [OF assms [unfolded Cons] this] show ?thesis using Cons by simp
qed

lemma reachable_dest_route:
  "reachable_dest ns s dest = (\<exists>p. route ns p \<and> hd p = s \<and> int (last p) = dest)"
proof
  assume "reachable_dest ns s dest"
  then obtain t k where "dest = int t" "hops ns s k t" by (auto simp: reachable_dest_def)
  then show "\<exists>p. route ns p \<and> hd p = s \<and> int (last p) = dest"
    using hops_route [of ns s k t] by auto
next
  assume "\<exists>p. route ns p \<and> hd p = s \<and> int (last p) = dest"
  then obtain p where "route ns p" "hd p = s" "int (last p) = dest" by blast
  then show "reachable_dest ns s dest"
    using route_hops [of ns p] by (auto simp: reachable_dest_def)
qed

lemma first_hop_shortest:
  assumes e: "hop_edge ns s h" and h: "hops ns h k t" and d: "Suc k = hop_dist ns s t"
  shows "\<exists>p. shortest_route ns s t (s # h # p)"
proof -
  obtain p1 where p1: "route ns p1" "hd p1 = h" "last p1 = t" "length p1 = Suc k"
    using hops_route [OF h] by blast
  then obtain p where p: "p1 = h # p" by (cases p1) auto
  have r: "route ns (s # h # p)" using e p1(1) p by simp
  have l: "last (s # h # p) = t" using p1(3) p by simp
  have len: "length (s # h # p) = Suc (Suc k)" using p1(4) p by simp
  have "length (s # h # p) \<le> length p'"
    if r': "route ns p'" and hd': "hd p' = s" and l': "last p' = t" for p'
  proof -
    have "hops ns s (length p' - 1) t" using route_hops [OF r'] hd' l' by simp
    then have "hop_dist ns s t \<le> length p' - 1" by (rule hop_dist_le)
    then show ?thesis using d len by simp
  qed
  then have "shortest_route ns s t (s # h # p)"
    unfolding shortest_route_def using r l by auto
  then show ?thesis ..
qed

text \<open>
  Two networks to run the router on: \<open>route_example\<close> has the edges 0 \<rightarrow> 1, 0 \<rightarrow> 2 and
  2 \<rightarrow> 3; \<open>self_example\<close> has the single edge 0 \<rightarrow> 1.
\<close>

definition route_example :: "NodeData list" where
  "route_example =
     [(NodeData_init 0 CHR ''A'' WAIT_NODE 5)\<lparr>adjacent_nodes := [1, 2]\<rparr>,
      NodeData_init 1 CHR ''B'' WAIT_NODE 5,
      (NodeData_init 2 CHR ''C'' WAIT_NODE 5)\<lparr>adjacent_nodes := [3]\<rparr>,
      NodeData_init 3 CHR ''D'' WAIT_NODE 5]"

definition self_example :: "NodeData list" where
  "self_example =
     [(NodeData_init 0 CHR ''A'' WAIT_NODE 5)\<lparr>adjacent_nodes := [1]\<rparr>,
      NodeData_init 1 CHR ''B'' WAIT_NODE 5]"

lemma route_example_hop: "find_best_next_hop route_example 0 3 = 2"
  by (simp add: find_best_next_hop_def find_best_next_hop_run_def route_example_def
      NodeData_init_def bfs_loop.simps first_hop_walk.simps)

lemma self_example_hop: "find_best_next_hop self_example 0 0 = 0"
  by (simp add: find_best_next_hop_def find_best_next_hop_run_def self_example_def
      NodeData_init_def bfs_loop.simps first_hop_walk.simps)

text \<open>
  C4. The claim: \<open>find_best_next_hop\<close> returns \<open>-1\<close> exactly when \<open>from_node\<close> has no
  outgoing edge; else the destination when it is a direct neighbour; else, when the
  destination is reachable, the first hop of a shortest route to it; else the first
  adjacent node. With the destination equal to \<open>from_node\<close> and no edge from the node
  to itself this fails: in \<open>self_example\<close> the router, asked for the way from node 0 to
  node 0, returns 0, which is not in the adjacency list \<open>[1]\<close> of node 0, so it is
  neither a first hop of a route nor the first adjacent node.
\<close>

theorem find_best_next_hop_counterexample:
  "find_best_next_hop self_example 0 0 = 0
   \<and> adjacent_nodes (self_example ! 0) = [1]
   \<and> length self_example = 2"
  using self_example_hop by (simp add: self_example_def NodeData_init_def)

text \<open>
  C4 (amended). For a node \<open>from_node\<close> of a network whose adjacency lists hold node
  indices, \<open>find_best_next_hop\<close> returns a value, and
  \<^item> the value is \<open>-1\<close> exactly when \<open>from_node\<close> has no outgoing edge;
  \<^item> it is the destination when the destination is in the adjacency list of \<open>from_node\<close>;
  \<^item> otherwise, for a destination other than \<open>from_node\<close> that some route from
    \<open>from_node\<close> ends in, it is the second node of a shortest route from \<open>from_node\<close>
    to the destination;
  \<^item> otherwise, for the destination \<open>from_node\<close>, it is \<open>from_node\<close> itself;
  \<^item> otherwise (no route ends in the destination) it is the first adjacent node.
\<close>

theorem find_best_next_hop_contract:
  assumes "well_formed ns" and "from_node < length ns"
  shows "find_best_next_hop_run ns from_node destination
           = Some (find_best_next_hop ns from_node destination)
       \<and> (find_best_next_hop ns from_node destination = - 1)
           = (adjacent_nodes (ns ! from_node) = [])
       \<and> (list_ex (\<lambda>adj. int adj = destination) (adjacent_nodes (ns ! from_node)) \<longrightarrow>
            find_best_next_hop ns from_node destination = destination)
       \<and> (adjacent_nodes (ns ! from_node) \<noteq> []
            \<and> \<not> list_ex (\<lambda>adj. int adj = destination) (adjacent_nodes (ns ! from_node))
            \<and> destination \<noteq> int from_node
            \<and> (\<exists>p. route ns p \<and> hd p = from_node \<and> int (last p) = destination) \<longrightarrow>
            (\<exists>h p. find_best_next_hop ns from_node destination = int h
               \<and> shortest_route ns from_node (nat destination) (from_node # h # p)))
       \<and> (adjacent_nodes (ns ! from_node) \<noteq> []
            \<and> \<not> list_ex (\<lambda>adj. int adj = destination) (adjacent_nodes (ns ! from_node))
            \<and> destination = int from_node \<longrightarrow>
            find_best_next_hop ns from_node destination = int from_node)
       \<and> (adjacent_nodes (ns ! from_node) \<noteq> []
            \<and> \<not> list_ex (\<lambda>adj. int adj = destination) (adjacent_nodes (ns ! from_node))
            \<and> \<not> (\<exists>p. route ns p \<and> hd p = from_node \<and> int (last p) = destination) \<longrightarrow>
            find_best_next_hop ns from_node destination = int (hd (adjacent_nodes (ns ! from_node))))"
proof -
  let ?adj = "adjacent_nodes (ns ! from_node)"
  let ?direct = "list_ex (\<lambda>adj. int adj = destination) ?adj"
  let ?r = "find_best_next_hop ns from_node destination"
  have ret: "find_best_next_hop_run ns from_node destination = Some ?r"
    using find_best_next_hop_run_returns [of ns from_node destination]
    by (auto simp: find_best_next_hop_def)
  have self: "reachable_dest ns from_node (int from_node)"
    using hops.start [OF assms(2)] by (auto simp: reachable_dest_def)
  show ?thesis
  proof (cases "?adj = []")
    case True
    then have "?r = - 1"
      using assms(2) by (simp add: find_best_next_hop_def find_best_next_hop_run_def)
    then show ?thesis using ret True by simp
  next
    case ne: False
    show ?thesis
    proof (cases ?direct)
      case True
      then have r: "?r = destination"
        using assms(2) ne by (simp add: find_best_next_hop_def find_best_next_hop_run_def)
      have "0 \<le> destination" using True by (auto simp: list_ex_iff)
      then show ?thesis using ret r ne True by simp
    next
      case nd: False
      note s = find_best_next_hop_search [OF assms(2) ne nd]
      show ?thesis
      proof (cases "reachable_dest ns from_node destination")
        case unreach: False
        then have r: "?r = int (hd ?adj)" using s ret by auto
        have nr: "\<not> (\<exists>p. route ns p \<and> hd p = from_node \<and> int (last p) = destination)"
          using unreach by (simp add: reachable_dest_route)
        have "destination \<noteq> int from_node" using unreach self by auto
        then show ?thesis
          using ret r ne nd nr by auto
      next
        case reach: True
        show ?thesis
        proof (cases "destination = int from_node")
          case True
          then have "?r = int from_node" using s ret reach by auto
          then show ?thesis using ret ne nd reach True by (simp add: reachable_dest_route)
        next
          case False
          then obtain h k where h: "?r = int h" "hop_edge ns from_node h"
              "hops ns h k (nat destination)"
              "Suc k = hop_dist ns from_node (nat destination)"
            using s ret reach by auto
          obtain p where "shortest_route ns from_node (nat destination) (from_node # h # p)"
            using first_hop_shortest [OF h(2-4)] by blast
          then have "\<exists>h p. ?r = int h
              \<and> shortest_route ns from_node (nat destination) (from_node # h # p)"
            using h(1) by blast
          moreover have "?r \<noteq> - 1" using h(1) by simp
          ultimately show ?thesis
            using ret ne nd False reachable_dest_route [of ns from_node destination] reach
            by simp
        qed
      qed
    qed
  qed
qed

theorem find_best_next_hop_contract_witness:
  "well_formed route_example
   \<and> 0 < length route_example
   \<and> find_best_next_hop_run route_example 0 3 = Some 2
   \<and> adjacent_nodes (route_example ! 0) = [1, 2]
   \<and> route route_example [0, 2, 3]"
proof -
  have w: "well_formed route_example"
    by (simp add: well_formed_def route_example_def NodeData_init_def)
  have l: "0 < length route_example" by (simp add: route_example_def)
  have r: "route route_example [0, 2, 3]"
    by (simp add: hop_edge_def route_example_def NodeData_init_def)
  have a: "adjacent_nodes (route_example ! 0) = [1, 2]"
    by (simp add: route_example_def)
  from find_best_next_hop_contract [OF w l, of 3]
  have "find_best_next_hop_run route_example 0 3
      = Some (find_best_next_hop route_example 0 3)" by blast
  then show ?thesis using w l r a route_example_hop by simp
qed

section \<open>Dispatch order within a node\<close>

text \<open>
  Where the vehicles of a node sit: the Regular ones in the waiting queue, the others in
  the emergency queue, whose vector is a heap. The loader pushes every vehicle into the
  queue of its class, into queues that are empty at first.
\<close>

definition queues_sorted :: "NodeData \<Rightarrow> bool" where
  "queues_sorted nd =
     (list_all (\<lambda>v. vtype v = REGULAR) (waiting_queue nd)
      \<and> list_all (\<lambda>v. vtype v \<noteq> REGULAR) (emergency_queue nd)
      \<and> is_heap (emergency_queue nd))"

definition well_queued :: "TrafficNetwork \<Rightarrow> bool" where
  "well_queued net = list_all queues_sorted (nodes net)"

lemma well_queued_nth:
  "well_queued net = (\<forall>j<length (nodes net). queues_sorted (nodes net ! j))"
  by (simp add: well_queued_def list_all_length)

lemma well_queuedD:
  "well_queued net \<Longrightarrow> j < length (nodes net) \<Longrightarrow> queues_sorted (nodes net ! j)"
  by (simp add: well_queued_nth)

lemma queues_sorted_occupancy [simp]:
  "queues_sorted (nd\<lparr>current_vehicles := x\<rparr>) = queues_sorted nd"
  by (simp add: queues_sorted_def)

lemma queues_sorted_enqueue:
  "queues_sorted nd \<Longrightarrow> queues_sorted (enqueue_by_type v nd)"
  by (simp add: queues_sorted_def enqueue_by_type_def list_all_iff is_heap_pq_push)

text \<open>
  A node as the loader fills it, by pushes of vehicles into the queue of their class
  from the empty queues on, has its queues sorted.
\<close>

lemma queues_sorted_loaded:
  "queues_sorted (fold enqueue_by_type vs (NodeData_init ident c t cap))"
proof (induction vs rule: rev_induct)
  case Nil
  show ?case by (simp add: queues_sorted_def NodeData_init_def is_heap_def)
next
  case (snoc v vs)
  then show ?case by (simp add: queues_sorted_enqueue)
qed

lemma queues_sorted_return:
  assumes "queues_sorted nd"
  shows "vtype v \<noteq> REGULAR \<Longrightarrow>
           queues_sorted (nd\<lparr>emergency_queue := pq_push v (emergency_queue nd)\<rparr>)"
    and "vtype v = REGULAR \<Longrightarrow>
           queues_sorted (nd\<lparr>waiting_queue := waiting_queue nd @ [v]\<rparr>)"
  using assms by (simp_all add: queues_sorted_def list_all_iff is_heap_pq_push)

lemma well_queued_upd_node:
  assumes "well_queued net" and "i < length (nodes net) \<Longrightarrow> queues_sorted (f (nodes net ! i))"
  shows "well_queued (upd_node i f net)"
proof -
  have "queues_sorted ((nodes net)[i := f (nodes net ! i)] ! j)"
    if j: "j < length (nodes net)" for j
  proof (cases "j = i")
    case True
    then show ?thesis using j assms(2) by simp
  next
    case False
    then show ?thesis using j assms(1) by (simp add: well_queued_nth)
  qed
  then show ?thesis by (simp add: well_queued_nth)
qed

lemma well_queued_upd_stats [simp]: "well_queued (upd_stats f net) = well_queued net"
  by (simp add: well_queued_def)

lemma well_queued_leave_source:
  assumes "well_queued net"
  shows "well_queued (leave_source i net)"
proof (cases "0 <s current_vehicles (nodes net ! i)")
  case True
  have "well_queued (upd_node i (\<lambda>nd. nd\<lparr>current_vehicles := current_vehicles nd - 1\<rparr>) net)"
    using assms
  proof (rule well_queued_upd_node)
    assume "i < length (nodes net)"
    then show "queues_sorted ((nodes net ! i)
        \<lparr>current_vehicles := current_vehicles (nodes net ! i) - 1\<rparr>)"
      using well_queuedD [OF assms] by simp
  qed
  then show ?thesis using True by (simp add: leave_source_def)
next
  case False
  then show ?thesis using assms by (simp add: leave_source_def)
qed

lemma well_queued_return:
  assumes "well_queued net" and "e = (vtype v \<noteq> REGULAR)"
  shows "well_queued (return_vehicle_to_queue v i e net)"
proof (cases e)
  case True
  have "well_queued (upd_node i
      (\<lambda>nd. nd\<lparr>emergency_queue := pq_push v (emergency_queue nd)\<rparr>) net)"
    using assms(1)
  proof (rule well_queued_upd_node)
    assume "i < length (nodes net)"
    then have "queues_sorted (nodes net ! i)" using assms(1) by (rule well_queuedD [rotated])
    then show "queues_sorted ((nodes net ! i)
        \<lparr>emergency_queue := pq_push v (emergency_queue (nodes net ! i))\<rparr>)"
      using queues_sorted_return(1) True assms(2) by simp
  qed
  then show ?thesis using True by (simp add: return_vehicle_to_queue_def)
next
  case False
  have "well_queued (upd_node i (\<lambda>nd. nd\<lparr>waiting_queue := waiting_queue nd @ [v]\<rparr>) net)"
    using assms(1)
  proof (rule well_queued_upd_node)
    assume "i < length (nodes net)"
    then have "queues_sorted (nodes net ! i)" using assms(1) by (rule well_queuedD [rotated])
    then show "queues_sorted ((nodes net ! i)
        \<lparr>waiting_queue := waiting_queue (nodes net ! i) @ [v]\<rparr>)"
      using queues_sorted_return(2) False assms(2) by simp
  qed
  then show ?thesis using False by (simp add: return_vehicle_to_queue_def)
qed

lemma well_queued_move:
  assumes "well_queued net"
  shows "well_queued (snd (perform_vehicle_move_with_display v i t net))"
proof -
  let ?n2 = "upd_stats (\<lambda>st. st\<lparr>total_moves := total_moves st + 1\<rparr>) (leave_source i net)"
  let ?n3 = "upd_node (nat t) (\<lambda>nd. nd\<lparr>current_vehicles := current_vehicles nd + 1\<rparr>) ?n2"
  have w2: "well_queued ?n2" using assms by (simp add: well_queued_leave_source)
  have w3: "well_queued ?n3"
    using w2
  proof (rule well_queued_upd_node)
    assume "nat t < length (nodes ?n2)"
    then have "queues_sorted (nodes ?n2 ! nat t)" using w2 by (rule well_queuedD [rotated])
    then show "queues_sorted ((nodes ?n2 ! nat t)
        \<lparr>current_vehicles := current_vehicles (nodes ?n2 ! nat t) + 1\<rparr>)"
      by simp
  qed
  have "well_queued (upd_node (nat t) (enqueue_by_type (v\<lparr>current_node := t\<rparr>)) ?n3)"
    using w3
  proof (rule well_queued_upd_node)
    assume "nat t < length (nodes ?n3)"
    then have "queues_sorted (nodes ?n3 ! nat t)" using w3 by (rule well_queuedD [rotated])
    then show "queues_sorted (enqueue_by_type (v\<lparr>current_node := t\<rparr>) (nodes ?n3 ! nat t))"
      by (rule queues_sorted_enqueue)
  qed
  then show ?thesis
    using w2 by (simp add: perform_vehicle_move_with_display_def Let_def)
qed

text \<open>
  What processing a vehicle taken out at node \<open>i\<close> leaves in the nodes, in either mode:
  the admitted move, or the vehicle back in the queue it came from.
\<close>

lemma process_vehicle_step_by_step_result:
  "snd (snd (process_vehicle_step_by_step v i e net)) =
     (if is_moved net i v then snd (perform_vehicle_move_with_display v i (hop_of net i v) net)
      else return_vehicle_to_queue v i e net)"
  by (auto simp: process_vehicle_step_by_step_def is_moved_def hop_of_def Let_def
      split: prod.splits)

lemma process_vehicle_result:
  "nodes (snd (process_vehicle v i e net)) =
     nodes (if is_moved net i v then snd (perform_vehicle_move_with_display v i (hop_of net i v) net)
            else return_vehicle_to_queue v i e net)"
proof (cases "is_moved net i v")
  case True
  then have adm: "can_move_to_node_safe (nodes net) (hop_of net i v) (vtype v)"
    by (simp add: is_moved_def)
  have "process_vehicle v i e net = perform_vehicle_move v i (hop_of net i v) net"
    using True by (simp add: process_vehicle_def is_moved_def hop_of_def)
  then show ?thesis
    using perform_vehicle_move_admitted [OF adm, of i] True by simp
next
  case False
  then show ?thesis
    by (auto simp: process_vehicle_def is_moved_def hop_of_def Let_def attempt_rerouting_def)
qed

text \<open>
  One service of node \<open>i\<close>: \<^verbatim>\<open>process_node_vehicles\<close> in automatic mode,
  \<^verbatim>\<open>process_single_vehicle_movement\<close> in step mode.
\<close>

definition serve :: "bool \<Rightarrow> nat \<Rightarrow> TrafficNetwork \<Rightarrow> TrafficNetwork" where
  "serve automatic i net =
     (if automatic then process_node_vehicles i net
      else snd (process_single_vehicle_movement i net))"

lemma length_nodes_serve_mode [simp]:
  "length (nodes (serve automatic i net)) = length (nodes net)"
  by (simp add: serve_def)

lemma serve_out_of_range: "length (nodes net) \<le> i \<Longrightarrow> serve automatic i net = net"
  by (simp add: serve_def process_node_vehicles_def process_single_vehicle_movement_def)

lemma serve_nodes:
  assumes "i < length (nodes net)"
  shows "nodes (serve automatic i net) =
     (case next_dispatched (nodes net ! i) of
        None \<Rightarrow> nodes net
      | Some (v, e, nd') \<Rightarrow>
          nodes (if is_moved (popped i nd' net) i v
                 then snd (perform_vehicle_move_with_display v i
                        (hop_of (popped i nd' net) i v) (popped i nd' net))
                 else return_vehicle_to_queue v i e (popped i nd' net)))"
  using assms
proof (cases rule: serve_cases)
  case empty
  then show ?thesis by (simp add: serve_def)
next
  case (vehicle v e nd')
  then show ?thesis
    using process_vehicle_step_by_step_result [of v i e "popped i nd' net"]
      process_vehicle_result [of v i e "popped i nd' net"]
    by (simp add: serve_def)
qed

text \<open>Taking the next vehicle out of a node whose queues are sorted.\<close>

lemma next_dispatched_sorted:
  assumes "queues_sorted nd" and "next_dispatched nd = Some (v, e, nd')"
  shows "queues_sorted nd'" and "e = (vtype v \<noteq> REGULAR)"
    and "e \<Longrightarrow> emergency_queue nd \<noteq> [] \<and> v = pq_top (emergency_queue nd)
           \<and> nd' = nd\<lparr>emergency_queue := pq_pop (emergency_queue nd)\<rparr>"
    and "\<not> e \<Longrightarrow> emergency_queue nd = [] \<and> waiting_queue nd \<noteq> [] \<and> v = hd (waiting_queue nd)
           \<and> nd' = nd\<lparr>waiting_queue := tl (waiting_queue nd)\<rparr>"
proof -
  show c: "e \<Longrightarrow> emergency_queue nd \<noteq> [] \<and> v = pq_top (emergency_queue nd)
           \<and> nd' = nd\<lparr>emergency_queue := pq_pop (emergency_queue nd)\<rparr>"
    using assms(2) by (auto simp: next_dispatched_def has_emergency_vehicles_def split: if_splits)
  show d: "\<not> e \<Longrightarrow> emergency_queue nd = [] \<and> waiting_queue nd \<noteq> []
           \<and> v = hd (waiting_queue nd) \<and> nd' = nd\<lparr>waiting_queue := tl (waiting_queue nd)\<rparr>"
    using assms(2) by (auto simp: next_dispatched_def has_emergency_vehicles_def split: if_splits)
  show "e = (vtype v \<noteq> REGULAR)"
  proof (cases e)
    case True
    then have "v \<in> set (emergency_queue nd)" using c pq_top_mem by auto
    then show ?thesis using True assms(1) by (auto simp: queues_sorted_def list_all_iff)
  next
    case False
    then have "v \<in> set (waiting_queue nd)" using d by auto
    then show ?thesis using False assms(1) by (auto simp: queues_sorted_def list_all_iff)
  qed
  show "queues_sorted nd'"
  proof (cases e)
    case True
    then show ?thesis
      using c assms(1) set_pq_pop_subset [of "emergency_queue nd"]
      by (auto simp: queues_sorted_def list_all_iff is_heap_pq_pop)
  next
    case False
    then show ?thesis
      using d assms(1)
      by (auto simp: queues_sorted_def list_all_iff dest: list.set_sel(2))
  qed
qed

lemma well_queued_popped:
  assumes "well_queued net" and "i < length (nodes net)"
    and "next_dispatched (nodes net ! i) = Some (v, e, nd')"
  shows "well_queued (popped i nd' net)"
proof -
  have "queues_sorted nd'"
    using next_dispatched_sorted(1) [OF well_queuedD [OF assms(1,2)] assms(3)] .
  then have "queues_sorted (nodes (popped i nd' net) ! j)" if "j < length (nodes net)" for j
    using that well_queuedD [OF assms(1), of j] by (simp add: popped_nth)
  then show ?thesis by (simp add: well_queued_nth)
qed

lemma well_queued_nodes: "nodes a = nodes b \<Longrightarrow> well_queued a = well_queued b"
  by (simp add: well_queued_def)

lemma serve_well_queued:
  assumes "well_queued net"
  shows "well_queued (serve automatic i net)"
proof (cases "i < length (nodes net)")
  case False
  then show ?thesis using assms by (simp add: serve_out_of_range)
next
  case True
  show ?thesis
  proof (cases "next_dispatched (nodes net ! i)")
    case None
    then have "nodes (serve automatic i net) = nodes net"
      using serve_nodes [OF True, of automatic] by simp
    then show ?thesis using assms well_queued_nodes by blast
  next
    case (Some x)
    obtain v e nd' where x: "x = (v, e, nd')" by (cases x)
    let ?P = "popped i nd' net"
    have nx: "next_dispatched (nodes net ! i) = Some (v, e, nd')" using Some x by simp
    have wp: "well_queued ?P" using well_queued_popped [OF assms True nx] .
    have e: "e = (vtype v \<noteq> REGULAR)"
      using next_dispatched_sorted(2) [OF well_queuedD [OF assms True] nx] .
    have "well_queued (if is_moved ?P i v
                 then snd (perform_vehicle_move_with_display v i (hop_of ?P i v) ?P)
                 else return_vehicle_to_queue v i e ?P)"
      using well_queued_move [OF wp] well_queued_return [OF wp e] by simp
    moreover have "nodes (serve automatic i net) =
        nodes (if is_moved ?P i v
                 then snd (perform_vehicle_move_with_display v i (hop_of ?P i v) ?P)
                 else return_vehicle_to_queue v i e ?P)"
      using serve_nodes [OF True, of automatic] nx by simp
    ultimately show ?thesis using well_queued_nodes by blast
  qed
qed

lemma step_loop_well_queued:
  "well_queued net \<Longrightarrow> well_queued (snd (step_loop i m net))"
proof (induction i m net rule: step_loop.induct)
  case (1 i m net)
  show ?case
  proof (cases "i < length (nodes net) \<and> \<not> m")
    case False
    then show ?thesis using "1.prems" by (simp add: step_loop_done)
  next
    case True
    show ?thesis
    proof (cases "get_queue_size (nodes net ! i) > 0")
      case q: True
      obtain m1 s1 where p: "process_single_vehicle_movement i net = (m1, s1)"
        by (cases "process_single_vehicle_movement i net")
      have w: "well_queued s1"
        using serve_well_queued [OF "1.prems", of False i] p by (simp add: serve_def)
      have "step_loop i m net = step_loop (i + 1) m1 s1"
        using True q p step_loop_serve [of i net m1 s1] by simp
      then show ?thesis
        using "1.IH"(1) [OF True q p [symmetric] w] by simp
    next
      case q: False
      have "step_loop i m net = step_loop (i + 1) m net"
        using True q step_loop_skip [of i net] by simp
      then show ?thesis
        using "1.IH"(2) [OF True q "1.prems"] by simp
    qed
  qed
qed

lemma sweep_loop_well_queued:
  "well_queued net \<Longrightarrow> well_queued (sweep_loop i net)"
proof (induction i net rule: sweep_loop.induct)
  case (1 i net)
  show ?case
  proof (cases "i < length (nodes net)")
    case False
    then show ?thesis using "1.prems" by (subst sweep_loop.simps) simp
  next
    case True
    show ?thesis
    proof (cases "get_queue_size (nodes net ! i) > 0")
      case q: True
      have "well_queued (process_node_vehicles i net)"
        using serve_well_queued [OF "1.prems", of True i] by (simp add: serve_def)
      from "1.IH"(1) [OF True q this] show ?thesis
        using True q by (subst sweep_loop.simps) simp
    next
      case q: False
      from "1.IH"(2) [OF True q "1.prems"] show ?thesis
        using True q by (subst sweep_loop.simps) simp
    qed
  qed
qed

lemma apply_op_well_queued:
  "well_queued net \<Longrightarrow> well_queued (apply_op e net)"
  using step_loop_well_queued [of net 0 False] sweep_loop_well_queued [of net 0]
    serve_well_queued [of net False] serve_well_queued [of net True]
  by (cases e) (simp_all add: apply_op_def execute_single_step_def serve_def)

lemma run_well_queued:
  "well_queued net \<Longrightarrow> well_queued (fold apply_op ops net)"
  by (induction ops arbitrary: net) (simp_all add: apply_op_well_queued)

text \<open>The queues of the nodes after a move and after a return to the queue.\<close>

lemma move_with_display_queues:
  assumes "j < length (nodes net)"
  shows "waiting_queue (nodes (snd (perform_vehicle_move_with_display v i t net)) ! j) =
           (if j = nat t \<and> t \<noteq> destination_node v \<and> vtype v = REGULAR
            then waiting_queue (nodes net ! j) @ [v\<lparr>current_node := t\<rparr>]
            else waiting_queue (nodes net ! j))"
    and "emergency_queue (nodes (snd (perform_vehicle_move_with_display v i t net)) ! j) =
           (if j = nat t \<and> t \<noteq> destination_node v \<and> vtype v \<noteq> REGULAR
            then pq_push (v\<lparr>current_node := t\<rparr>) (emergency_queue (nodes net ! j))
            else emergency_queue (nodes net ! j))"
proof -
  note l = leave_source_queues [OF assms, of i]
  have jl: "j < length (nodes (leave_source i net))" using assms by simp
  show "waiting_queue (nodes (snd (perform_vehicle_move_with_display v i t net)) ! j) =
           (if j = nat t \<and> t \<noteq> destination_node v \<and> vtype v = REGULAR
            then waiting_queue (nodes net ! j) @ [v\<lparr>current_node := t\<rparr>]
            else waiting_queue (nodes net ! j))"
  proof (cases "j = nat t")
    case True
    then show ?thesis
      using l jl
      by (auto simp: perform_vehicle_move_with_display_def Let_def enqueue_by_type_def)
  next
    case False
    then show ?thesis
      using l jl
      by (simp add: perform_vehicle_move_with_display_def Let_def enqueue_by_type_def)
  qed
  show "emergency_queue (nodes (snd (perform_vehicle_move_with_display v i t net)) ! j) =
           (if j = nat t \<and> t \<noteq> destination_node v \<and> vtype v \<noteq> REGULAR
            then pq_push (v\<lparr>current_node := t\<rparr>) (emergency_queue (nodes net ! j))
            else emergency_queue (nodes net ! j))"
  proof (cases "j = nat t")
    case True
    then show ?thesis
      using l jl
      by (auto simp: perform_vehicle_move_with_display_def Let_def enqueue_by_type_def)
  next
    case False
    then show ?thesis
      using l jl
      by (simp add: perform_vehicle_move_with_display_def Let_def enqueue_by_type_def)
  qed
qed

lemma return_vehicle_to_queue_queues:
  assumes "i < length (nodes net)"
  shows "waiting_queue (nodes (return_vehicle_to_queue v i e net) ! i) =
           (if e then waiting_queue (nodes net ! i) else waiting_queue (nodes net ! i) @ [v])"
    and "emergency_queue (nodes (return_vehicle_to_queue v i e net) ! i) =
           (if e then pq_push v (emergency_queue (nodes net ! i))
            else emergency_queue (nodes net ! i))"
  using assms by (simp_all add: return_vehicle_to_queue_def)

text \<open>
  The queues of node \<open>i\<close> after one service of node \<open>i\<close>: the vehicle taken is gone, or
  it is back in the queue it was taken from (it had no hop, was not admitted, or the hop
  was node \<open>i\<close> itself), with its class and arrival time as before.
\<close>

lemma serve_queues:
  assumes wq: "well_queued net" and i: "i < length (nodes net)"
    and nx: "next_dispatched (nodes net ! i) = Some (v, e, nd')"
  shows "\<exists>v''. vtype v'' = vtype v \<and> arrival_time v'' = arrival_time v
     \<and> (if vtype v \<noteq> REGULAR
        then waiting_queue (nodes (serve automatic i net) ! i) = waiting_queue (nodes net ! i)
           \<and> (emergency_queue (nodes (serve automatic i net) ! i)
                = pq_pop (emergency_queue (nodes net ! i))
              \<or> emergency_queue (nodes (serve automatic i net) ! i)
                = pq_push v'' (pq_pop (emergency_queue (nodes net ! i))))
        else emergency_queue (nodes (serve automatic i net) ! i) = []
           \<and> (waiting_queue (nodes (serve automatic i net) ! i)
                = tl (waiting_queue (nodes net ! i))
              \<or> waiting_queue (nodes (serve automatic i net) ! i)
                = tl (waiting_queue (nodes net ! i)) @ [v'']))"
proof -
  let ?nd = "nodes net ! i"
  let ?P = "popped i nd' net"
  let ?h = "hop_of ?P i v"
  note s = next_dispatched_sorted [OF well_queuedD [OF wq i] nx]
  have iP: "i < length (nodes ?P)" using i by simp
  have Pi: "nodes ?P ! i = nd'" using i by (simp add: popped_nth)
  have e: "e = (vtype v \<noteq> REGULAR)" using s(2) .
  have nd': "waiting_queue nd' = (if e then waiting_queue ?nd else tl (waiting_queue ?nd))"
      "emergency_queue nd' = (if e then pq_pop (emergency_queue ?nd) else [])"
  proof -
    show "waiting_queue nd' = (if e then waiting_queue ?nd else tl (waiting_queue ?nd))"
      using s(3,4) by (cases e) simp_all
    show "emergency_queue nd' = (if e then pq_pop (emergency_queue ?nd) else [])"
      using s(3,4) by (cases e) simp_all
  qed
  have sn: "nodes (serve automatic i net) =
      nodes (if is_moved ?P i v then snd (perform_vehicle_move_with_display v i ?h ?P)
             else return_vehicle_to_queue v i e ?P)"
    using serve_nodes [OF i, of automatic] nx by simp
  show ?thesis
  proof (cases "is_moved ?P i v")
    case True
    let ?v = "v\<lparr>current_node := ?h\<rparr>"
    have w: "waiting_queue (nodes (serve automatic i net) ! i) =
        (if i = nat ?h \<and> ?h \<noteq> destination_node v \<and> vtype v = REGULAR
         then waiting_queue nd' @ [?v] else waiting_queue nd')"
      using sn True move_with_display_queues(1) [OF iP, of v i ?h] Pi by simp
    have q: "emergency_queue (nodes (serve automatic i net) ! i) =
        (if i = nat ?h \<and> ?h \<noteq> destination_node v \<and> vtype v \<noteq> REGULAR
         then pq_push ?v (emergency_queue nd') else emergency_queue nd')"
      using sn True move_with_display_queues(2) [OF iP, of v i ?h] Pi by simp
    have "vtype ?v = vtype v \<and> arrival_time ?v = arrival_time v" by simp
    then show ?thesis
      using w q nd' e by (intro exI [of _ ?v]) (simp split: if_splits)
  next
    case False
    have w: "waiting_queue (nodes (serve automatic i net) ! i) =
        (if e then waiting_queue nd' else waiting_queue nd' @ [v])"
      using sn False return_vehicle_to_queue_queues(1) [OF iP, of v e] Pi by simp
    have q: "emergency_queue (nodes (serve automatic i net) ! i) =
        (if e then pq_push v (emergency_queue nd') else emergency_queue nd')"
      using sn False return_vehicle_to_queue_queues(2) [OF iP, of v e] Pi by simp
    show ?thesis
      using w q nd' e by (intro exI [of _ v]) (simp split: if_splits)
  qed
qed

text \<open>
  The vehicles queued at a node, and the order of dispatch: \<open>a\<close> goes before \<open>b\<close> when
  its class is not lower and, for two vehicles of the same emergency class, it did not
  arrive later.
\<close>

definition queued :: "NodeData \<Rightarrow> Vehicle set" where
  "queued nd = set (emergency_queue nd) \<union> set (waiting_queue nd)"

definition goes_before :: "Vehicle \<Rightarrow> Vehicle \<Rightarrow> bool" where
  "goes_before a b =
     (type_rank (vtype b) \<le> type_rank (vtype a)
      \<and> (vtype a = vtype b \<and> vtype a \<noteq> REGULAR \<longrightarrow> arrival_time a \<le> arrival_time b))"

lemma goes_before_key:
  "goes_before a b \<Longrightarrow> vtype b' = vtype b \<Longrightarrow> arrival_time b' = arrival_time b \<Longrightarrow>
     goes_before a b'"
  by (auto simp: goes_before_def)

text \<open>The vehicle a service takes goes before every vehicle queued at the node.\<close>

lemma next_dispatched_first:
  assumes qs: "queues_sorted nd" and nx: "next_dispatched nd = Some (v, e, nd')"
    and u: "u \<in> queued nd"
  shows "goes_before v u"
proof (cases e)
  case True
  note s = next_dispatched_sorted(2,3) [OF qs nx]
  have v: "vtype v \<noteq> REGULAR" using s(1) True by simp
  show ?thesis
  proof (cases "u \<in> set (emergency_queue nd)")
    case e: True
    have "\<not> vehicle_less (pq_top (emergency_queue nd)) u"
      using pq_top_greatest [OF _ e] qs by (simp add: queues_sorted_def)
    then show ?thesis
      using s(2) True by (simp add: not_vehicle_less_iff goes_before_def)
  next
    case False
    then have "u \<in> set (waiting_queue nd)" using u by (simp add: queued_def)
    then have "vtype u = REGULAR" using qs by (auto simp: queues_sorted_def list_all_iff)
    then show ?thesis using v by (cases "vtype v") (simp_all add: goes_before_def)
  qed
next
  case False
  note s = next_dispatched_sorted(2,4) [OF qs nx]
  have "u \<in> set (waiting_queue nd)" using s(2) False u by (simp add: queued_def)
  then have "vtype u = REGULAR" using qs by (auto simp: queues_sorted_def list_all_iff)
  moreover have "vtype v = REGULAR" using s(1) False by simp
  ultimately show ?thesis by (simp add: goes_before_def)
qed

lemma next_dispatched_queued:
  "next_dispatched nd = Some (v, e, nd') \<Longrightarrow> v \<in> queued nd"
  using pq_top_mem [of "emergency_queue nd"]
  by (auto simp: next_dispatched_def has_emergency_vehicles_def queued_def split: if_splits)

text \<open>
  A service of node \<open>i\<close> brings no new class or arrival time into the queues of node \<open>i\<close>.
\<close>

lemma serve_keys:
  assumes wq: "well_queued net" and i: "i < length (nodes net)"
    and x: "x \<in> queued (nodes (serve automatic i net) ! i)"
  shows "\<exists>u \<in> queued (nodes net ! i). vtype x = vtype u \<and> arrival_time x = arrival_time u"
proof (cases "next_dispatched (nodes net ! i)")
  case None
  then have "nodes (serve automatic i net) = nodes net"
    using serve_nodes [OF i, of automatic] by simp
  then show ?thesis using x by auto
next
  case (Some y)
  obtain v e nd' where y: "y = (v, e, nd')" by (cases y)
  have nx: "next_dispatched (nodes net ! i) = Some (v, e, nd')" using Some y by simp
  let ?nd = "nodes net ! i"
  let ?nd1 = "nodes (serve automatic i net) ! i"
  have vq: "v \<in> queued ?nd" using nx by (rule next_dispatched_queued)
  obtain v'' where k: "vtype v'' = vtype v" "arrival_time v'' = arrival_time v"
    and c: "if vtype v \<noteq> REGULAR
        then waiting_queue ?nd1 = waiting_queue ?nd
           \<and> (emergency_queue ?nd1 = pq_pop (emergency_queue ?nd)
              \<or> emergency_queue ?nd1 = pq_push v'' (pq_pop (emergency_queue ?nd)))
        else emergency_queue ?nd1 = []
           \<and> (waiting_queue ?nd1 = tl (waiting_queue ?nd)
              \<or> waiting_queue ?nd1 = tl (waiting_queue ?nd) @ [v''])"
    using serve_queues [OF wq i nx, of automatic] by blast
  have sub: "set (pq_pop (emergency_queue ?nd)) \<subseteq> set (emergency_queue ?nd)"
    by (rule set_pq_pop_subset)
  have tl: "set (tl (waiting_queue ?nd)) \<subseteq> set (waiting_queue ?nd)"
    by (cases "waiting_queue ?nd") auto
  have "x = v'' \<or> x \<in> queued ?nd"
  proof (cases "vtype v \<noteq> REGULAR")
    case True
    then show ?thesis using c x sub unfolding queued_def by auto
  next
    case False
    then show ?thesis using c x tl unfolding queued_def by auto
  qed
  then show ?thesis using k vq by auto
qed

text \<open>
  The vehicles that \<open>k\<close> successive services of node \<open>i\<close> take, one after the other, each
  service leaving the network as the engine leaves it: a vehicle that could not move is
  back in its queue for the next service.
\<close>

fun service_log :: "bool \<Rightarrow> nat \<Rightarrow> nat \<Rightarrow> TrafficNetwork \<Rightarrow> Vehicle list" where
  "service_log automatic 0 i net = []"
| "service_log automatic (Suc k) i net =
     (if length (nodes net) \<le> i then []
      else case next_dispatched (nodes net ! i) of
             None \<Rightarrow> []
           | Some (v, e, nd') \<Rightarrow> v # service_log automatic k i (serve automatic i net))"

lemma service_log_keys:
  assumes "well_queued net" and "x \<in> set (service_log automatic k i net)"
  shows "\<exists>u \<in> queued (nodes net ! i). vtype x = vtype u \<and> arrival_time x = arrival_time u"
  using assms
proof (induction k arbitrary: net)
  case 0
  then show ?case by simp
next
  case (Suc k)
  have i: "i < length (nodes net)" using Suc.prems(2) by (auto split: if_splits)
  obtain v e nd' where nx: "next_dispatched (nodes net ! i) = Some (v, e, nd')"
    using Suc.prems(2) i by (cases "next_dispatched (nodes net ! i)") auto
  let ?s = "serve automatic i net"
  have log: "service_log automatic (Suc k) i net = v # service_log automatic k i ?s"
    using i nx by simp
  show ?case
  proof (cases "x = v")
    case True
    then show ?thesis using next_dispatched_queued [OF nx] by auto
  next
    case False
    then have "x \<in> set (service_log automatic k i ?s)" using Suc.prems(2) log by simp
    then obtain u' where u': "u' \<in> queued (nodes ?s ! i)" "vtype x = vtype u'"
        "arrival_time x = arrival_time u'"
      using Suc.IH [OF serve_well_queued [OF Suc.prems(1)]] by blast
    then show ?thesis using serve_keys [OF Suc.prems(1) i u'(1)] by auto
  qed
qed

lemma service_log_sorted:
  assumes "well_queued net"
  shows "sorted_wrt goes_before (service_log automatic k i net)"
  using assms
proof (induction k arbitrary: net)
  case 0
  show ?case by simp
next
  case (Suc k)
  show ?case
  proof (cases "i < length (nodes net)")
    case False
    then show ?thesis by simp
  next
    case i: True
    show ?thesis
    proof (cases "next_dispatched (nodes net ! i)")
      case None
      then show ?thesis using i by simp
    next
      case (Some y)
      obtain v e nd' where y: "y = (v, e, nd')" by (cases y)
      have nx: "next_dispatched (nodes net ! i) = Some (v, e, nd')" using Some y by simp
      let ?s = "serve automatic i net"
      have ws: "well_queued ?s" using serve_well_queued [OF Suc.prems] .
      have "goes_before v x" if x: "x \<in> set (service_log automatic k i ?s)" for x
      proof -
        obtain u' where u': "u' \<in> queued (nodes ?s ! i)" "vtype x = vtype u'"
            "arrival_time x = arrival_time u'"
          using service_log_keys [OF ws x] by blast
        obtain u where u: "u \<in> queued (nodes net ! i)" "vtype u' = vtype u"
            "arrival_time u' = arrival_time u"
          using serve_keys [OF Suc.prems i u'(1)] by blast
        have "goes_before v u"
          using next_dispatched_first [OF well_queuedD [OF Suc.prems i] nx u(1)] .
        then show ?thesis using goes_before_key u'(2,3) u(2,3) by simp
      qed
      then show ?thesis using Suc.IH [OF ws] i nx by simp
    qed
  qed
qed

text \<open>
  The Regular vehicles among those taken are, from the first on, the vehicles of the
  waiting queue from its front on: a vehicle queued again waits behind them.
\<close>

lemma service_log_fifo:
  assumes "well_queued net" and "i < length (nodes net)"
  shows "take (length (waiting_queue (nodes net ! i)))
           (filter (\<lambda>v. vtype v = REGULAR) (service_log automatic k i net))
       = take (length (filter (\<lambda>v. vtype v = REGULAR) (service_log automatic k i net)))
           (waiting_queue (nodes net ! i))"
  using assms
proof (induction k arbitrary: net)
  case 0
  show ?case by simp
next
  case (Suc k)
  note i = Suc.prems(2)
  let ?w = "waiting_queue (nodes net ! i)"
  show ?case
  proof (cases "next_dispatched (nodes net ! i)")
    case None
    then show ?thesis using i by simp
  next
    case (Some y)
    obtain v e nd' where y: "y = (v, e, nd')" by (cases y)
    have nx: "next_dispatched (nodes net ! i) = Some (v, e, nd')" using Some y by simp
    let ?s = "serve automatic i net"
    let ?rs = "filter (\<lambda>v. vtype v = REGULAR) (service_log automatic k i ?s)"
    let ?w' = "waiting_queue (nodes ?s ! i)"
    have ws: "well_queued ?s" using serve_well_queued [OF Suc.prems(1)] .
    have ri: "i < length (nodes ?s)" using i by simp
    have IH: "take (length ?w') ?rs = take (length ?rs) ?w'"
      using Suc.IH [OF ws ri] .
    have log: "service_log automatic (Suc k) i net = v # service_log automatic k i ?s"
      using i nx by simp
    note s = next_dispatched_sorted(2,4) [OF well_queuedD [OF Suc.prems(1) i] nx]
    obtain v'' where full: "if vtype v \<noteq> REGULAR
        then ?w' = ?w
           \<and> (emergency_queue (nodes ?s ! i) = pq_pop (emergency_queue (nodes net ! i))
              \<or> emergency_queue (nodes ?s ! i)
                = pq_push v'' (pq_pop (emergency_queue (nodes net ! i))))
        else emergency_queue (nodes ?s ! i) = []
           \<and> (?w' = tl ?w \<or> ?w' = tl ?w @ [v''])"
      using serve_queues [OF Suc.prems(1) i nx, of automatic] by blast
    have c: "if vtype v \<noteq> REGULAR then ?w' = ?w
        else ?w' = tl ?w \<or> ?w' = tl ?w @ [v'']"
      using full by (simp split: if_splits)
    show ?thesis
    proof (cases "vtype v = REGULAR")
      case False
      then show ?thesis using IH c log by simp
    next
      case True
      then have ne: "\<not> e" using s(1) by simp
      obtain t where w: "?w = v # t" using s(2) [OF ne] by (cases ?w) auto
      have goal: "take (length t) ?rs = take (length ?rs) t"
      proof (cases "?w' = t")
        case True
        then show ?thesis using IH by simp
      next
        case False
        then have w': "?w' = t @ [v'']" using c True w by auto
        have "take (length t) (take (length ?w') ?rs) = take (length t) (take (length ?rs) ?w')"
          using IH by simp
        then show ?thesis
          unfolding w' by (simp add: min_def split: if_splits)
      qed
      show ?thesis using goal True log w by simp
    qed
  qed
qed

text \<open>
  The node of the claim's example, as the loader fills it: Regular vehicles 1 and 2,
  then Ambulance 3, then FireTruck 4. In \<open>dispatch_example\<close> they are bound for the
  adjacent node 1, which has room for them. In \<open>jam_example\<close> they are bound for node 2
  by way of node 1, which has capacity 1: the two emergency vehicles are admitted there,
  the Regular ones are not and are queued again.
\<close>

definition dispatch_example :: TrafficNetwork where
  "dispatch_example =
     \<lparr>nodes = [(NodeData_init 0 CHR ''A'' WAIT_NODE 5)
                  \<lparr>current_vehicles := 4,
                   waiting_queue := [Vehicle_init 1 REGULAR 0 1 1, Vehicle_init 2 REGULAR 0 1 2],
                   emergency_queue :=
                     [Vehicle_init 3 AMBULANCE 0 1 3, Vehicle_init 4 FIRE_TRUCK 0 1 4],
                   adjacent_nodes := [1]\<rparr>,
               NodeData_init 1 CHR ''B'' WAIT_NODE 5],
      stats = SystemStats_init, next_vehicle_id = 5\<rparr>"

definition jam_example :: TrafficNetwork where
  "jam_example =
     \<lparr>nodes = [(NodeData_init 0 CHR ''A'' WAIT_NODE 5)
                  \<lparr>current_vehicles := 4,
                   waiting_queue := [Vehicle_init 1 REGULAR 0 2 1, Vehicle_init 2 REGULAR 0 2 2],
                   emergency_queue :=
                     [Vehicle_init 3 AMBULANCE 0 2 3, Vehicle_init 4 FIRE_TRUCK 0 2 4],
                   adjacent_nodes := [1]\<rparr>,
               (NodeData_init 1 CHR ''B'' WAIT_NODE 1)\<lparr>adjacent_nodes := [2]\<rparr>,
               NodeData_init 2 CHR ''C'' WAIT_NODE 5],
      stats = SystemStats_init, next_vehicle_id = 5\<rparr>"

lemmas engine_eval =
  serve_def process_single_vehicle_movement_def process_node_vehicles_def
  process_vehicle_step_by_step_def process_vehicle_def perform_vehicle_move_with_display_def
  perform_vehicle_move_def has_emergency_vehicles_def next_dispatched_def
  find_best_next_hop_def find_best_next_hop_run_def bfs_loop.simps first_hop_walk.simps
  can_move_to_node_safe_def
  leave_source_def record_arrival_def return_vehicle_to_queue_def enqueue_by_type_def
  upd_node_def upd_stats_def
  pq_top_def pq_pop_def pop_heap_def adjust_heap_def adjust_heap_down.simps
  pq_push_def push_heap_def push_heap_hole.simps vehicle_less_def
  NodeData_init_def Vehicle_init_def SystemStats_init_def Let_def word_sless_alt

lemma dispatch_example_log:
  "service_log False 4 0 dispatch_example =
     [Vehicle_init 3 AMBULANCE 0 1 3, Vehicle_init 4 FIRE_TRUCK 0 1 4,
      Vehicle_init 1 REGULAR 0 1 1, Vehicle_init 2 REGULAR 0 1 2]"
  by (simp add: eval_nat_numeral dispatch_example_def engine_eval)

lemma dispatch_example_sweeps:
  "service_log True 4 0 dispatch_example =
     [Vehicle_init 3 AMBULANCE 0 1 3, Vehicle_init 4 FIRE_TRUCK 0 1 4,
      Vehicle_init 1 REGULAR 0 1 1, Vehicle_init 2 REGULAR 0 1 2]"
  by (simp add: eval_nat_numeral dispatch_example_def engine_eval)

lemma dispatch_example_end:
  "fold apply_op [Serve_Node 0, Serve_Node 0, Serve_Node 0, Serve_Node 0] dispatch_example =
     \<lparr>nodes = [(NodeData_init 0 CHR ''A'' WAIT_NODE 5)\<lparr>adjacent_nodes := [1]\<rparr>,
               NodeData_init 1 CHR ''B'' WAIT_NODE 5],
      stats = SystemStats_init\<lparr>total_vehicles_processed := 2,
                emergency_vehicles_processed := 2, successful_routes := 4, total_moves := 4\<rparr>,
      next_vehicle_id = 5\<rparr>"
  by (simp add: apply_op_def dispatch_example_def engine_eval)

lemma jam_example_log:
  "service_log False 6 0 jam_example =
     [Vehicle_init 3 AMBULANCE 0 2 3, Vehicle_init 4 FIRE_TRUCK 0 2 4,
      Vehicle_init 1 REGULAR 0 2 1, Vehicle_init 2 REGULAR 0 2 2,
      Vehicle_init 1 REGULAR 0 2 1, Vehicle_init 2 REGULAR 0 2 2]"
  by (simp add: eval_nat_numeral jam_example_def engine_eval)

lemma examples_well_queued: "well_queued dispatch_example" "well_queued jam_example"
  by (simp_all add: well_queued_def queues_sorted_def is_heap_def dispatch_example_def
      jam_example_def NodeData_init_def Vehicle_init_def vehicle_less_def)

text \<open>
  C5. Start from a state in which every vehicle sits in the queue of its class (Regular
  vehicles in the waiting queue, the others in the emergency queue, a heap), as the loader
  builds it, and let \<open>s\<close> be the state after any run of engine operations. Then
  \<^item> in \<open>s\<close> every vehicle again sits in the queue of its class;
  \<^item> the vehicle that a service of node \<open>i\<close> takes comes from the emergency queue exactly
    when it is not Regular; no vehicle queued at the node has a higher class (Ambulance
    above FireTruck above Regular), none of the same emergency class arrived earlier,
    and a Regular vehicle is taken from the front of the waiting queue; both
    \<^verbatim>\<open>process_single_vehicle_movement\<close> and \<^verbatim>\<open>process_node_vehicles\<close> process that vehicle;
  \<^item> in the vehicles that any number of successive services of node \<open>i\<close> take, in step
    mode or in automatic mode, no vehicle comes after one of a lower class or after one
    of the same emergency class that arrived later: every emergency vehicle comes before
    every Regular one, every Ambulance before every FireTruck;
  \<^item> the Regular vehicles among them are, from the first on, those of the waiting queue
    of \<open>s\<close> from its front on, in the order they were enqueued.
\<close>

theorem dispatch_ordering:
  assumes "well_queued net" and "s = fold apply_op ops net"
  shows "well_queued s
    \<and> (\<forall>i v e nd'. i < length (nodes s) \<and> next_dispatched (nodes s ! i) = Some (v, e, nd') \<longrightarrow>
          e = (vtype v \<noteq> REGULAR)
          \<and> (\<forall>u \<in> set (emergency_queue (nodes s ! i)) \<union> set (waiting_queue (nodes s ! i)).
                type_rank (vtype u) \<le> type_rank (vtype v)
                \<and> (vtype v = vtype u \<and> vtype v \<noteq> REGULAR \<longrightarrow>
                     arrival_time v \<le> arrival_time u))
          \<and> (vtype v = REGULAR \<longrightarrow> v = hd (waiting_queue (nodes s ! i)))
          \<and> process_single_vehicle_movement i s =
              (case process_vehicle_step_by_step v i e (s\<lparr>nodes := (nodes s)[i := nd']\<rparr>) of
                 (moved, vehicle', net') \<Rightarrow> (moved, net'))
          \<and> process_node_vehicles i s =
              snd (process_vehicle v i e (s\<lparr>nodes := (nodes s)[i := nd']\<rparr>)))
    \<and> (\<forall>automatic k i.
          sorted_wrt (\<lambda>a b. type_rank (vtype b) \<le> type_rank (vtype a)
                       \<and> (vtype a = vtype b \<and> vtype a \<noteq> REGULAR \<longrightarrow>
                            arrival_time a \<le> arrival_time b))
            (service_log automatic k i s)
          \<and> (i < length (nodes s) \<longrightarrow>
               take (length (waiting_queue (nodes s ! i)))
                 (filter (\<lambda>v. vtype v = REGULAR) (service_log automatic k i s))
               = take (length (filter (\<lambda>v. vtype v = REGULAR) (service_log automatic k i s)))
                   (waiting_queue (nodes s ! i))))"
proof -
  have ws: "well_queued s" using assms by (simp add: run_well_queued)
  have sel: "e = (vtype v \<noteq> REGULAR)
          \<and> (\<forall>u \<in> set (emergency_queue (nodes s ! i)) \<union> set (waiting_queue (nodes s ! i)).
                type_rank (vtype u) \<le> type_rank (vtype v)
                \<and> (vtype v = vtype u \<and> vtype v \<noteq> REGULAR \<longrightarrow>
                     arrival_time v \<le> arrival_time u))
          \<and> (vtype v = REGULAR \<longrightarrow> v = hd (waiting_queue (nodes s ! i)))
          \<and> process_single_vehicle_movement i s =
              (case process_vehicle_step_by_step v i e (s\<lparr>nodes := (nodes s)[i := nd']\<rparr>) of
                 (moved, vehicle', net') \<Rightarrow> (moved, net'))
          \<and> process_node_vehicles i s =
              snd (process_vehicle v i e (s\<lparr>nodes := (nodes s)[i := nd']\<rparr>))"
    if i: "i < length (nodes s)" and nx: "next_dispatched (nodes s ! i) = Some (v, e, nd')"
    for i v e nd'
  proof -
    note qs = well_queuedD [OF ws i]
    note d = next_dispatched_sorted(2,4) [OF qs nx]
    have "goes_before v u" if "u \<in> queued (nodes s ! i)" for u
      using next_dispatched_first [OF qs nx that] .
    then have a: "\<forall>u \<in> set (emergency_queue (nodes s ! i)) \<union> set (waiting_queue (nodes s ! i)).
                type_rank (vtype u) \<le> type_rank (vtype v)
                \<and> (vtype v = vtype u \<and> vtype v \<noteq> REGULAR \<longrightarrow>
                     arrival_time v \<le> arrival_time u)"
      by (auto simp: queued_def goes_before_def)
    have b: "vtype v = REGULAR \<longrightarrow> v = hd (waiting_queue (nodes s ! i))"
      using d by auto
    have c: "process_single_vehicle_movement i s =
              (case process_vehicle_step_by_step v i e (s\<lparr>nodes := (nodes s)[i := nd']\<rparr>) of
                 (moved, vehicle', net') \<Rightarrow> (moved, net'))"
      using process_single_vehicle_movement_dispatch [OF i] nx by simp
    have "process_node_vehicles i s =
              snd (process_vehicle v i e (s\<lparr>nodes := (nodes s)[i := nd']\<rparr>))"
      using process_node_vehicles_dispatch [OF i] nx by simp
    then show ?thesis using d(1) a b c by blast
  qed
  have rel: "goes_before = (\<lambda>a b. type_rank (vtype b) \<le> type_rank (vtype a)
                       \<and> (vtype a = vtype b \<and> vtype a \<noteq> REGULAR \<longrightarrow>
                            arrival_time a \<le> arrival_time b))"
    by (intro ext) (simp add: goes_before_def)
  have srt: "sorted_wrt (\<lambda>a b. type_rank (vtype b) \<le> type_rank (vtype a)
                       \<and> (vtype a = vtype b \<and> vtype a \<noteq> REGULAR \<longrightarrow>
                            arrival_time a \<le> arrival_time b))
            (service_log automatic k i s)" for automatic k i
    using service_log_sorted [OF ws, of automatic k i] unfolding rel .
  have fifo: "take (length (waiting_queue (nodes s ! i)))
                 (filter (\<lambda>v. vtype v = REGULAR) (service_log automatic k i s))
               = take (length (filter (\<lambda>v. vtype v = REGULAR) (service_log automatic k i s)))
                   (waiting_queue (nodes s ! i))"
    if "i < length (nodes s)" for automatic k i
    using service_log_fifo [OF ws that] .
  show ?thesis
    using ws sel srt fifo by blast
qed

theorem dispatch_ordering_witness:
  "well_queued dispatch_example
   \<and> well_queued (fold apply_op [Serve_Node 0, Serve_Node 0] dispatch_example)
   \<and> service_log False 4 0 dispatch_example =
       [Vehicle_init 3 AMBULANCE 0 1 3, Vehicle_init 4 FIRE_TRUCK 0 1 4,
        Vehicle_init 1 REGULAR 0 1 1, Vehicle_init 2 REGULAR 0 1 2]
   \<and> service_log True 4 0 dispatch_example =
       [Vehicle_init 3 AMBULANCE 0 1 3, Vehicle_init 4 FIRE_TRUCK 0 1 4,
        Vehicle_init 1 REGULAR 0 1 1, Vehicle_init 2 REGULAR 0 1 2]
   \<and> get_queue_size (nodes (fold apply_op [Serve_Node 0, Serve_Node 0, Serve_Node 0,
        Serve_Node 0] dispatch_example) ! 0) = 0
   \<and> successful_routes (stats (fold apply_op [Serve_Node 0, Serve_Node 0, Serve_Node 0,
        Serve_Node 0] dispatch_example)) = 4
   \<and> well_queued jam_example
   \<and> service_log False 6 0 jam_example =
       [Vehicle_init 3 AMBULANCE 0 2 3, Vehicle_init 4 FIRE_TRUCK 0 2 4,
        Vehicle_init 1 REGULAR 0 2 1, Vehicle_init 2 REGULAR 0 2 2,
        Vehicle_init 1 REGULAR 0 2 1, Vehicle_init 2 REGULAR 0 2 2]"
proof -
  from dispatch_ordering [OF examples_well_queued(1) refl, of "[Serve_Node 0, Serve_Node 0]"]
  have "well_queued (fold apply_op [Serve_Node 0, Serve_Node 0] dispatch_example)"
    by blast
  moreover have "get_queue_size (nodes (fold apply_op [Serve_Node 0, Serve_Node 0,
        Serve_Node 0, Serve_Node 0] dispatch_example) ! 0) = 0"
      "successful_routes (stats (fold apply_op [Serve_Node 0, Serve_Node 0, Serve_Node 0,
        Serve_Node 0] dispatch_example)) = 4"
    unfolding dispatch_example_end
    by (simp_all add: get_queue_size_def NodeData_init_def SystemStats_init_def)
  ultimately show ?thesis
    using examples_well_queued dispatch_example_log dispatch_example_sweeps jam_example_log
    by simp
qed

end
